theory Spec2Isabelle
  imports
    Complex_Main
    "HOL-Library.Multiset"
    "HOL-Library.Char_ord"
    "HOL-Library.List_Lexorder"
    "HOL-Library.Log_Nat"
    "HOL-Library.Word"
begin

section \<open>The section classifier: \<open>sortFilesIntoSections\<close> of \<open>src/App.tsx\<close>\<close>

subsection \<open>Data\<close>

text \<open>
  \<open>interface S3Object { Key?: string; Size?: number; LastModified?: Date }\<close>: every field
  is optional, so every field is an \<open>option\<close>. A key is a \<open>string\<close>; the order on
  characters (\<open>Char_ord\<close>) and the lexicographic order on lists (\<open>List_Lexorder\<close>) give
  the comparison by code units that JavaScript's default \<open>Array.prototype.sort\<close> uses on
  strings.
\<close>

record S3Object =
  Key :: "string option"
  Size :: "nat option"
  LastModified :: "nat option"

record FileSection =
  prefix :: string
  displayName :: string
  files :: "S3Object list"

subsection \<open>The pattern \<open>/^([a-z]{2})-/\<close>\<close>

definition isLowerAZ :: "char \<Rightarrow> bool" where
  "isLowerAZ c \<longleftrightarrow> CHR ''a'' \<le> c \<and> c \<le> CHR ''z''"

text \<open>
  \<open>file.Key.match(/^([a-z]{2})-/)\<close>: the result is the first capture group when the key
  starts with two letters of \<open>a..z\<close> and a hyphen, and \<open>None\<close> (JavaScript's \<open>null\<close>)
  otherwise.
\<close>

fun matchPrefix :: "string \<Rightarrow> string option" where
  "matchPrefix (a # b # c # rest) =
     (if isLowerAZ a \<and> isLowerAZ b \<and> c = CHR ''-'' then Some [a, b] else None)"
| "matchPrefix _ = None"

text \<open>
  \<open>prefix.toUpperCase()\<close>. It is only ever applied to a capture of the pattern above, two
  letters of \<open>a..z\<close>; on those it subtracts 32 from the character code, and it is written
  here to leave every other character alone.
\<close>

definition toUpperChar :: "char \<Rightarrow> char" where
  "toUpperChar c = (if isLowerAZ c then char_of (of_char c - (32::nat)) else c)"

definition toUpperCase :: "string \<Rightarrow> string" where
  "toUpperCase s = map toUpperChar s"

subsection \<open>\<open>Array.prototype.sort\<close> with a comparison function\<close>

text \<open>
  \<open>xs.sort(cmp)\<close> is stable, and \<open>cmp a b > 0\<close> means that \<open>a\<close> goes after \<open>b\<close>. For a
  consistent comparison function every stable sort returns the same array; it is written
  here as insertion from the right, which keeps equal elements in their input order.
\<close>

fun insertBy :: "('a \<Rightarrow> 'a \<Rightarrow> int) \<Rightarrow> 'a \<Rightarrow> 'a list \<Rightarrow> 'a list" where
  "insertBy cmp x [] = [x]"
| "insertBy cmp x (y # ys) = (if cmp x y \<le> 0 then x # y # ys else y # insertBy cmp x ys)"

definition sortBy :: "('a \<Rightarrow> 'a \<Rightarrow> int) \<Rightarrow> 'a list \<Rightarrow> 'a list" where
  "sortBy cmp xs = foldr (insertBy cmp) xs []"

text \<open>\<open>a.Key || ''\<close>: an undefined key (and the empty key) reads as the empty string.\<close>

definition keyOrEmpty :: "S3Object \<Rightarrow> string" where
  "keyOrEmpty f = (case Key f of None \<Rightarrow> [] | Some k \<Rightarrow> k)"

text \<open>
  The comparison function \<open>(a, b) => (a.Key || '').localeCompare(b.Key || '')\<close>.
  \<open>String.prototype.localeCompare\<close> belongs to the platform, not to the repository: it is
  the parameter \<open>lc\<close> of the model.
\<close>

definition compareFiles :: "(string \<Rightarrow> string \<Rightarrow> int) \<Rightarrow> S3Object \<Rightarrow> S3Object \<Rightarrow> int" where
  "compareFiles lc a b = lc (keyOrEmpty a) (keyOrEmpty b)"

text \<open>
  ECMAScript requires \<open>localeCompare\<close> to be a consistent comparison function: the relation
  \<open>lc a b \<le> 0\<close> is total and transitive.
\<close>

definition consistentCompare :: "(string \<Rightarrow> string \<Rightarrow> int) \<Rightarrow> bool" where
  "consistentCompare lc \<longleftrightarrow>
     (\<forall>a b. lc a b \<le> 0 \<or> lc b a \<le> 0) \<and>
     (\<forall>a b c. lc a b \<le> 0 \<and> lc b c \<le> 0 \<longrightarrow> lc a c \<le> 0)"

text \<open>
  The comparison by code units, the lexicographic order of the strings. It is not the
  comparison of the program, which calls \<open>localeCompare\<close>: it is one consistent comparison
  function, an instance of the parameter \<open>lc\<close> in examples.
\<close>

definition lexCompare :: "string \<Rightarrow> string \<Rightarrow> int" where
  "lexCompare a b = (if a < b then - 1 else if a = b then 0 else 1)"

subsection \<open>The function\<close>

text \<open>
  \<open>sections: Record<string, S3Object[]>\<close> is an object whose own keys are kept in insertion
  order: an association list. \<open>sectionsPush p f\<close> is
  \<open>if (!sections[p]) { sections[p] = [] }; sections[p].push(f)\<close>.
\<close>

fun sectionsPush :: "string \<Rightarrow> S3Object \<Rightarrow> (string \<times> S3Object list) list
    \<Rightarrow> (string \<times> S3Object list) list" where
  "sectionsPush p f [] = [(p, [f])]"
| "sectionsPush p f ((q, fs) # rest) =
     (if p = q then (q, fs @ [f]) # rest else (q, fs) # sectionsPush p f rest)"

text \<open>
  \<open>sections[prefix]\<close>. It is read only for the keys of \<open>sections\<close>; the value at any other
  key is \<open>undefined\<close>, on which \<open>.sort\<close> would throw, and is written \<open>[]\<close> here (lemma
  \<open>sectionsGet_groups\<close> shows that a key that is present holds a non-empty array).
\<close>

definition sectionsGet :: "(string \<times> S3Object list) list \<Rightarrow> string \<Rightarrow> S3Object list" where
  "sectionsGet secs p = (case map_of secs p of None \<Rightarrow> [] | Some fs \<Rightarrow> fs)"

text \<open>
  The body of \<open>files.forEach(file => ...)\<close>, on the pair of \<open>sections\<close> and \<open>unsorted\<close>.
  \<open>!file.Key\<close> holds for an undefined key and for the empty string.
\<close>

definition classifyStep :: "(string \<times> S3Object list) list \<times> S3Object list \<Rightarrow> S3Object
    \<Rightarrow> (string \<times> S3Object list) list \<times> S3Object list" where
  "classifyStep acc file =
     (case acc of (sections, unsorted) \<Rightarrow>
        (case Key file of
           None \<Rightarrow> (sections, unsorted)
         | Some k \<Rightarrow>
             if k = [] then (sections, unsorted)
             else (case matchPrefix k of
                     Some p \<Rightarrow> (sectionsPush p file sections, unsorted)
                   | None \<Rightarrow> (sections, unsorted @ [file]))))"

definition sortFilesIntoSections :: "(string \<Rightarrow> string \<Rightarrow> int) \<Rightarrow> S3Object list
    \<Rightarrow> FileSection list" where
  "sortFilesIntoSections lc fileList =
     (case foldl classifyStep ([], []) fileList of (sections, unsorted) \<Rightarrow>
        map (\<lambda>p. \<lparr>prefix = p, displayName = toUpperCase p,
                  files = sortBy (compareFiles lc) (sectionsGet sections p)\<rparr>)
            (sort (map fst sections))
        @ (if length unsorted > 0
           then [\<lparr>prefix = ''unsorted'', displayName = ''Unsorted'',
                  files = sortBy (compareFiles lc) unsorted\<rparr>]
           else []))"


section \<open>The progressive downloader: \<open>handleDownload\<close> of \<open>src/App.tsx\<close>\<close>

subsection \<open>JavaScript numbers in \<open>Math.round((loaded / total) * 100)\<close>\<close>

text \<open>
  \<open>loaded\<close> and \<open>total\<close> are byte counts. A JavaScript number holds every integer below
  \<open>2 ^ 53\<close> exactly, so that \<open>loaded += value.length\<close> and \<open>parseInt\<close> are exact on sizes below
  8 PiB: the model keeps \<open>loaded\<close> as a natural number and \<open>total\<close> as an integer. The
  division and the multiplication round to the nearest double, ties to even, and that
  rounding is visible in the percentage (29 bytes of 200 give 14, not 15):
  \<open>roundToDouble x\<close> is the double nearest to the rational \<open>x\<close>, for \<open>x\<close> in the range of
  the normal doubles. \<open>binade x\<close> is the exponent \<open>e\<close> with \<open>2 ^ e \<le> x < 2 ^ (e + 1)\<close>; a
  double of that binade is a multiple of \<open>2 ^ (e - 52)\<close>.
\<close>

definition binade :: "rat \<Rightarrow> int" where
  "binade x = (case quotient_of x of (p, q) \<Rightarrow>
     (let d = bitlen p - bitlen q in if 2 powi d \<le> x then d else d - 1))"

definition roundEven :: "rat \<Rightarrow> int" where
  "roundEven y = (let f = \<lfloor>y\<rfloor>; r = y - of_int f in
     if r < 1 / 2 then f else if 1 / 2 < r then f + 1 else if even f then f else f + 1)"

definition roundToDouble :: "rat \<Rightarrow> rat" where
  "roundToDouble x = (if x = 0 then 0 else
     (let u = 2 powi (binade \<bar>x\<bar> - 52) in sgn x * of_int (roundEven (\<bar>x\<bar> / u)) * u))"

definition jsDiv :: "rat \<Rightarrow> rat \<Rightarrow> rat" where
  "jsDiv a b = roundToDouble (a / b)"

definition jsMul :: "rat \<Rightarrow> rat \<Rightarrow> rat" where
  "jsMul a b = roundToDouble (a * b)"

text \<open>\<open>Math.round\<close>: the nearest integer, a half going up.\<close>

definition mathRound :: "rat \<Rightarrow> int" where
  "mathRound x = \<lfloor>x + 1 / 2\<rfloor>"

text \<open>\<open>const progress = Math.round((loaded / total) * 100)\<close>\<close>

definition progressOf :: "nat \<Rightarrow> int \<Rightarrow> int" where
  "progressOf loaded tot = mathRound (jsMul (jsDiv (of_nat loaded) (of_int tot)) 100)"

subsection \<open>The platform: signed URLs, \<open>fetch\<close>, the body stream\<close>

text \<open>
  A chunk is a \<open>Uint8Array\<close>. \<open>reader.read()\<close> resolves with a chunk, resolves with
  \<open>done\<close>, or rejects. A body stream is the sequence of the results of its successive reads,
  a function of the number of reads made so far: a stream need not end.
\<close>

type_synonym byte = "8 word"

datatype readResult = ReadChunk "byte list" | ReadDone | ReadFails

record response =
  ok :: bool
  status :: nat
  statusText :: string
  contentLength :: "string option"
  body :: "(nat \<Rightarrow> readResult) option"

text \<open>
  What the download of one key meets outside the component: whether \<open>s3Client\<close> is set,
  what \<open>getSignedUrl\<close> answers for a key (\<open>None\<close>: it rejects) and what \<open>fetch\<close> answers for
  a URL (\<open>None\<close>: it rejects).
\<close>

record environment =
  s3Client :: bool
  getSignedUrl :: "string \<Rightarrow> string option"
  fetch :: "string \<Rightarrow> response option"

subsection \<open>Effects and the component state\<close>

text \<open>
  The effects of \<open>handleDownload\<close>, in the order in which they happen: the four state updates
  (\<open>setDownloadingFiles\<close> adding and deleting a key, \<open>setDownloadProgress\<close> setting and
  deleting an entry), the network requests (\<open>getSignedUrl\<close> with its \<open>expiresIn\<close>, \<open>fetch\<close>,
  every \<open>reader.read()\<close> with its result, \<open>response.blob()\<close>), the click on the download link
  (file name and content of the blob) and the \<open>alert\<close>. Console output is left out.
\<close>

datatype event =
    AddDownloading string
  | SetProgress string int
  | SignUrl string nat
  | Fetch string
  | Read readResult
  | Blob
  | SaveAs string "byte list"
  | Alert string
  | RemoveDownloading string
  | RemoveProgress string

text \<open>
  \<open>downloadingFiles: Set<string>\<close> and \<open>downloadProgress: Map<string, number>\<close>. All updates
  are functional (\<open>prev => ...\<close>), so an update acts on the state it finds.
\<close>

record dlState =
  downloadingFiles :: "string set"
  downloadProgress :: "string \<rightharpoonup> int"

fun applyEvent :: "dlState \<Rightarrow> event \<Rightarrow> dlState" where
  "applyEvent s (AddDownloading k) = s\<lparr>downloadingFiles := insert k (downloadingFiles s)\<rparr>"
| "applyEvent s (SetProgress k v) = s\<lparr>downloadProgress := (downloadProgress s)(k \<mapsto> v)\<rparr>"
| "applyEvent s (RemoveDownloading k) = s\<lparr>downloadingFiles := downloadingFiles s - {k}\<rparr>"
| "applyEvent s (RemoveProgress k) = s\<lparr>downloadProgress := (downloadProgress s)(k := None)\<rparr>"
| "applyEvent s _ = s"

definition runEvents :: "dlState \<Rightarrow> event list \<Rightarrow> dlState" where
  "runEvents s evs = foldl applyEvent s evs"

subsection \<open>\<open>parseInt(contentLength, 10)\<close>\<close>

text \<open>
  Leading white space is skipped (the white space characters among the 256 characters of a
  header value), one sign is read, then the longest run of decimal digits; without a digit
  the result is \<open>NaN\<close>, written \<open>None\<close>.
\<close>

definition isWhiteSpace :: "char \<Rightarrow> bool" where
  "isWhiteSpace c \<longleftrightarrow> (of_char c :: nat) \<in> {9, 10, 11, 12, 13, 32, 160}"

definition isDigit :: "char \<Rightarrow> bool" where
  "isDigit c \<longleftrightarrow> CHR ''0'' \<le> c \<and> c \<le> CHR ''9''"

definition digitsValue :: "string \<Rightarrow> int" where
  "digitsValue ds = foldl (\<lambda>acc c. 10 * acc + (of_char c - 48)) 0 ds"

definition parseInt :: "string \<Rightarrow> int option" where
  "parseInt s =
     (let s1 = dropWhile isWhiteSpace s;
          neg = (case s1 of c # _ \<Rightarrow> c = CHR ''-'' | [] \<Rightarrow> False);
          s2 = (case s1 of c # r \<Rightarrow> if c = CHR ''-'' \<or> c = CHR ''+'' then r else s1 | [] \<Rightarrow> s1);
          ds = takeWhile isDigit s2
      in if ds = [] then None else Some (if neg then - digitsValue ds else digitsValue ds))"

text \<open>
  \<open>const total = contentLength ? parseInt(contentLength, 10) : 0\<close>: a missing header and the
  empty string are falsy.
\<close>

definition totalOf :: "string option \<Rightarrow> int option" where
  "totalOf header =
     (case header of None \<Rightarrow> Some 0 | Some s \<Rightarrow> if s = [] then Some 0 else parseInt s)"

subsection \<open>The two ways to receive the body\<close>

text \<open>
  The loop \<open>while (true) { const { done, value } = await reader.read(); if (done) break; ... }\<close>
  with its variables \<open>chunks\<close> and \<open>loaded\<close>, the number \<open>n\<close> of reads made and the effects
  so far. It returns the effects and the chunks (\<open>None\<close> for the chunks: a read rejected and
  the exception leaves the loop). On a stream that never ends the loop does not return:
  the value of the function is \<open>None\<close>.
\<close>

partial_function (option) readLoop ::
  "string \<Rightarrow> int \<Rightarrow> (nat \<Rightarrow> readResult) \<Rightarrow> nat \<Rightarrow> byte list list \<Rightarrow> nat \<Rightarrow> event list
     \<Rightarrow> (event list \<times> byte list list option) option" where
  "readLoop key tot reader n chunks loaded evs =
     (case reader n of
        ReadDone \<Rightarrow> Some (evs @ [Read ReadDone], Some chunks)
      | ReadFails \<Rightarrow> Some (evs @ [Read ReadFails], None)
      | ReadChunk v \<Rightarrow>
          readLoop key tot reader (Suc n) (chunks @ [v]) (loaded + length v)
            (evs @ [Read (ReadChunk v), SetProgress key (progressOf (loaded + length v) tot)]))"

text \<open>
  \<open>response.blob()\<close> reads the whole body inside the platform: the bytes of all chunks, or a
  rejection; a response without a body gives the empty blob.
\<close>

partial_function (option) readAll ::
  "(nat \<Rightarrow> readResult) \<Rightarrow> nat \<Rightarrow> byte list \<Rightarrow> byte list option option" where
  "readAll reader n acc =
     (case reader n of
        ReadDone \<Rightarrow> Some (Some acc)
      | ReadFails \<Rightarrow> Some None
      | ReadChunk v \<Rightarrow> readAll reader (Suc n) (acc @ v))"

declare readLoop.simps [code]
declare readAll.simps [code]

definition blob :: "response \<Rightarrow> byte list option option" where
  "blob r = (case body r of None \<Rightarrow> Some (Some []) | Some reader \<Rightarrow> readAll reader 0 [])"

subsection \<open>The function\<close>

text \<open>A \<open>try\<close> block is left by a \<open>return\<close> or the end of the block, or by an exception.\<close>

datatype outcome = Returned | Thrown

text \<open>
  \<open>generateDownloadUrl\<close>: \<open>'#'\<close> without a client and when \<open>getSignedUrl\<close> rejects, the
  signed URL (valid for 3600 seconds) otherwise.
\<close>

definition generateDownloadUrl :: "environment \<Rightarrow> string \<Rightarrow> event list \<times> string" where
  "generateDownloadUrl env key =
     (if \<not> s3Client env then ([], ''#'')
      else (case getSignedUrl env key of
              Some signedUrl \<Rightarrow> ([SignUrl key 3600], signedUrl)
            | None \<Rightarrow> ([SignUrl key 3600], ''#'')))"

text \<open>
  The branch \<open>if (response.body && total > 0)\<close>: the read loop, then the blob of the chunks
  is saved under the key.
\<close>

definition streamBody :: "string \<Rightarrow> int \<Rightarrow> (nat \<Rightarrow> readResult) \<Rightarrow> (event list \<times> outcome) option" where
  "streamBody key tot reader =
     (case readLoop key tot reader 0 [] 0 [] of
        None \<Rightarrow> None
      | Some (evs, None) \<Rightarrow> Some (evs, Thrown)
      | Some (evs, Some chunks) \<Rightarrow> Some (evs @ [SaveAs key (concat chunks)], Returned))"

text \<open>The \<open>else\<close> branch: \<open>await response.blob()\<close>, saved under the key.\<close>

definition bufferBody :: "string \<Rightarrow> response \<Rightarrow> (event list \<times> outcome) option" where
  "bufferBody key r =
     (case blob r of
        None \<Rightarrow> None
      | Some None \<Rightarrow> Some ([Blob], Thrown)
      | Some (Some bytes) \<Rightarrow> Some ([Blob, SaveAs key bytes], Returned))"

text \<open>\<open>total > 0\<close> is false for \<open>NaN\<close>.\<close>

definition receiveBody :: "string \<Rightarrow> response \<Rightarrow> (event list \<times> outcome) option" where
  "receiveBody key r =
     (case (body r, totalOf (contentLength r)) of
        (Some reader, Some tot) \<Rightarrow> if 0 < tot then streamBody key tot reader else bufferBody key r
      | _ \<Rightarrow> bufferBody key r)"

text \<open>
  The \<open>try\<close> block: the two initial state updates, the signed URL (\<open>return\<close> on \<open>'#'\<close>), the
  fetch (an exception when it rejects and when \<open>!response.ok\<close>), the body.
\<close>

definition tryBlock :: "environment \<Rightarrow> string \<Rightarrow> (event list \<times> outcome) option" where
  "tryBlock env key =
     (case generateDownloadUrl env key of (signing, url) \<Rightarrow>
        if url = ''#'' then Some ([AddDownloading key, SetProgress key 0] @ signing, Returned)
        else (case fetch env url of
                None \<Rightarrow> Some ([AddDownloading key, SetProgress key 0] @ signing @ [Fetch url], Thrown)
              | Some r \<Rightarrow>
                  if \<not> ok r
                  then Some ([AddDownloading key, SetProgress key 0] @ signing @ [Fetch url], Thrown)
                  else (case receiveBody key r of
                          None \<Rightarrow> None
                        | Some (evs, out) \<Rightarrow>
                            Some ([AddDownloading key, SetProgress key 0] @ signing @ [Fetch url] @ evs,
                                  out))))"

text \<open>
  \<open>handleDownload\<close>: the guard on \<open>downloadingFiles\<close>, which returns before the \<open>try\<close>; then
  the \<open>try\<close> block, the \<open>catch\<close> (the alert) and the \<open>finally\<close> (the two deletions). The
  state \<open>st\<close> is the one of the render whose handler is called: the guard reads the
  \<open>downloadingFiles\<close> of that render. The result is the list of the effects of this one
  call, in order (the effects of other downloads in flight are not part of it); \<open>None\<close> is
  a call that never returns.
\<close>

definition handleDownload :: "environment \<Rightarrow> dlState \<Rightarrow> string \<Rightarrow> event list option" where
  "handleDownload env st key =
     (if key \<in> downloadingFiles st then Some []
      else (case tryBlock env key of
              None \<Rightarrow> None
            | Some (evs, out) \<Rightarrow>
                Some (evs @ (case out of Thrown \<Rightarrow> [Alert key] | Returned \<Rightarrow> [])
                      @ [RemoveDownloading key, RemoveProgress key])))"

section \<open>Notions used to state the properties of the classifier\<close>

text \<open>
  These definitions are not part of the program: they name what the theorems below say about
  it. \<open>hasKey f\<close> is the negation of the guard \<open>!file.Key\<close>; \<open>sectionOf f\<close> is the result of
  the pattern match on the key of \<open>f\<close>; \<open>groupOf p fs\<close> and \<open>unsortedOf fs\<close> are the records
  of \<open>fs\<close>, in input order, that the loop pushes to \<open>sections[p]\<close> and to \<open>unsorted\<close>;
  \<open>members\<close> lists the records of all sections of a result.
\<close>

definition hasKey :: "S3Object \<Rightarrow> bool" where
  "hasKey f \<longleftrightarrow> (case Key f of None \<Rightarrow> False | Some k \<Rightarrow> k \<noteq> [])"

definition sectionOf :: "S3Object \<Rightarrow> string option" where
  "sectionOf f = (case Key f of None \<Rightarrow> None | Some k \<Rightarrow> matchPrefix k)"

definition groupOf :: "string \<Rightarrow> S3Object list \<Rightarrow> S3Object list" where
  "groupOf p fs = filter (\<lambda>f. hasKey f \<and> sectionOf f = Some p) fs"

definition unsortedOf :: "S3Object list \<Rightarrow> S3Object list" where
  "unsortedOf fs = filter (\<lambda>f. hasKey f \<and> sectionOf f = None) fs"

definition prefixesOf :: "S3Object list \<Rightarrow> string set" where
  "prefixesOf fs = {p. \<exists>f \<in> set fs. hasKey f \<and> sectionOf f = Some p}"

definition mkSection :: "(string \<Rightarrow> string \<Rightarrow> int) \<Rightarrow> S3Object list \<Rightarrow> string \<Rightarrow> FileSection" where
  "mkSection lc fs p = \<lparr>prefix = p, displayName = toUpperCase p,
      files = sortBy (compareFiles lc) (groupOf p fs)\<rparr>"

definition unsortedPart :: "(string \<Rightarrow> string \<Rightarrow> int) \<Rightarrow> S3Object list \<Rightarrow> FileSection list" where
  "unsortedPart lc fs = (if unsortedOf fs \<noteq> []
           then [\<lparr>prefix = ''unsorted'', displayName = ''Unsorted'',
                  files = sortBy (compareFiles lc) (unsortedOf fs)\<rparr>]
           else [])"

definition members :: "FileSection list \<Rightarrow> S3Object list" where
  "members secs = concat (map files secs)"

definition sectionName :: "S3Object \<Rightarrow> string" where
  "sectionName f = (case sectionOf f of Some p \<Rightarrow> p | None \<Rightarrow> ''unsorted'')"

text \<open>
  The answers of \<open>localeCompare\<close> on keys made of ASCII letters, digits and hyphens, in
  the root collation that the English locales use: two keys compare by their characters
  without regard to case, and keys that differ in case only have the lower case letter
  first (\<open>'en-apple'.localeCompare('en-Banana')\<close> is negative, although \<open>B\<close> is before \<open>a\<close>
  in code units). It serves to run the model on what the platform answers; no theorem
  assumes that \<open>lc\<close> is this function.
\<close>

definition toLowerChar :: "char \<Rightarrow> char" where
  "toLowerChar c = (if CHR ''A'' \<le> c \<and> c \<le> CHR ''Z'' then char_of (of_char c + (32::nat)) else c)"

definition asciiCollate :: "string \<Rightarrow> string \<Rightarrow> int" where
  "asciiCollate a b =
     (if map toLowerChar a < map toLowerChar b then - 1
      else if map toLowerChar b < map toLowerChar a then 1
      else if b < a then - 1
      else if a < b then 1
      else 0)"


section \<open>Notions used to state the properties of the downloader\<close>

text \<open>
  These definitions are not part of the program. \<open>progressValues k evs\<close> lists the values
  that the effects \<open>evs\<close> set for the key \<open>k\<close>, in order; \<open>readsOf evs\<close> lists the results of
  the reads, \<open>chunksOf evs\<close> the chunks read and \<open>bytesRead evs\<close> their total length.
  \<open>responseOf env k\<close> is the response that the download of \<open>k\<close> receives, if it gets that
  far.
\<close>

definition progressValues :: "string \<Rightarrow> event list \<Rightarrow> int list" where
  "progressValues k evs = concat (map (\<lambda>e. case e of SetProgress k' v \<Rightarrow> if k' = k then [v] else [] | _ \<Rightarrow> []) evs)"

definition readsOf :: "event list \<Rightarrow> readResult list" where
  "readsOf evs = concat (map (\<lambda>e. case e of Read r \<Rightarrow> [r] | _ \<Rightarrow> []) evs)"

definition chunksOf :: "event list \<Rightarrow> byte list list" where
  "chunksOf evs = concat (map (\<lambda>e. case e of Read (ReadChunk v) \<Rightarrow> [v] | _ \<Rightarrow> []) evs)"

definition bytesRead :: "event list \<Rightarrow> nat" where
  "bytesRead evs = length (concat (chunksOf evs))"

definition responseOf :: "environment \<Rightarrow> string \<Rightarrow> response option" where
  "responseOf env key =
     (case generateDownloadUrl env key of (signing, url) \<Rightarrow>
        if url = ''#'' then None else fetch env url)"


text \<open>
  \<open>loopShape key tot reader n loaded tail\<close> recognises the effects of the read loop from its
  \<open>n\<close>-th read on, with \<open>loaded\<close> bytes read before: every chunk read is followed by the
  update of the progress to the percentage of the bytes read so far, and the last effect is
  the read that is not a chunk.
\<close>

fun loopShape :: "string \<Rightarrow> int \<Rightarrow> (nat \<Rightarrow> readResult) \<Rightarrow> nat \<Rightarrow> nat \<Rightarrow> event list \<Rightarrow> bool" where
  "loopShape key tot reader n loaded (Read (ReadChunk v) # SetProgress k p # rest) =
     (reader n = ReadChunk v \<and> k = key \<and> p = progressOf (loaded + length v) tot \<and>
      loopShape key tot reader (Suc n) (loaded + length v) rest)"
| "loopShape key tot reader n loaded [Read ReadDone] = (reader n = ReadDone)"
| "loopShape key tot reader n loaded [Read ReadFails] = (reader n = ReadFails)"
| "loopShape key tot reader n loaded evs = False"


text \<open>
  Concrete inputs for the examples: a stream that delivers the listed results and is done
  afterwards, an environment whose signing and fetch succeed with a given \<open>content-length\<close>
  header and body, and the state without any download.
\<close>

definition streamOf :: "readResult list \<Rightarrow> nat \<Rightarrow> readResult" where
  "streamOf rs n = (if n < length rs then rs ! n else ReadDone)"

definition exampleEnv :: "string option \<Rightarrow> (nat \<Rightarrow> readResult) option \<Rightarrow> environment" where
  "exampleEnv header stream =
     \<lparr>s3Client = True,
      getSignedUrl = (\<lambda>k. Some (''https://sos.example/'' @ k)),
      fetch = (\<lambda>u. Some \<lparr>ok = True, status = 200, statusText = ''OK'',
                           contentLength = header, body = stream\<rparr>)\<rparr>"

definition idle :: dlState where
  "idle = \<lparr>downloadingFiles = {}, downloadProgress = Map.empty\<rparr>"


section \<open>The classifier: what the loop computes\<close>

subsection \<open>The object \<open>sections\<close>\<close>

lemma classifyStep_cases:
  "classifyStep (secs, u) f =
     (if \<not> hasKey f then (secs, u)
      else case sectionOf f of Some p \<Rightarrow> (sectionsPush p f secs, u) | None \<Rightarrow> (secs, u @ [f]))"
  by (simp add: classifyStep_def hasKey_def sectionOf_def split: option.splits)

lemma classifyStep_no_key: "Key f = None \<Longrightarrow> classifyStep acc f = acc"
  by (cases acc) (simp add: classifyStep_def)

lemma map_of_sectionsPush:
  "map_of (sectionsPush p f secs) = (map_of secs)(p \<mapsto> sectionsGet secs p @ [f])"
  by (induction secs) (auto simp: sectionsGet_def fun_eq_iff)

lemma sectionsGet_sectionsPush:
  "sectionsGet (sectionsPush p f secs) q = (if q = p then sectionsGet secs p @ [f] else sectionsGet secs q)"
  by (simp add: sectionsGet_def map_of_sectionsPush)

lemma keys_sectionsPush:
  "set (map fst (sectionsPush p f secs)) = insert p (set (map fst secs))"
  by (induction p f secs rule: sectionsPush.induct) auto

lemma distinct_sectionsPush:
  "distinct (map fst secs) \<Longrightarrow> distinct (map fst (sectionsPush p f secs))"
proof (induction p f secs rule: sectionsPush.induct)
  case (1 p f)
  then show ?case by simp
next
  case (2 p f q fs rest)
  show ?case
  proof (cases "p = q")
    case True
    with 2 show ?thesis by simp
  next
    case False
    have "q \<notin> set (map fst (sectionsPush p f rest))"
      unfolding keys_sectionsPush using "2.prems" False by auto
    with 2 False show ?thesis by simp
  qed
qed


text \<open>
  The loop invariant: after the records \<open>fs\<close>, \<open>unsorted\<close> has grown by \<open>unsortedOf fs\<close>, the
  keys of \<open>sections\<close> by the prefixes met, and the array at every prefix by its group.
\<close>

lemma foldl_classifyStep:
  "foldl classifyStep (secs, u) fs = (secs', u') \<Longrightarrow>
     u' = u @ unsortedOf fs \<and>
     set (map fst secs') = set (map fst secs) \<union> prefixesOf fs \<and>
     (distinct (map fst secs) \<longrightarrow> distinct (map fst secs')) \<and>
     (\<forall>p. sectionsGet secs' p = sectionsGet secs p @ groupOf p fs)"
proof (induction fs arbitrary: secs u)
  case Nil
  then show ?case by (simp add: unsortedOf_def prefixesOf_def groupOf_def)
next
  case (Cons f fs)
  obtain s1 u1 where st: "classifyStep (secs, u) f = (s1, u1)" by (cases "classifyStep (secs, u) f")
  from Cons.prems have "foldl classifyStep (s1, u1) fs = (secs', u')" by (simp add: st)
  note IH = Cons.IH[OF this]
  show ?case
  proof (cases "hasKey f")
    case False
    then have "s1 = secs" "u1 = u" using st by (simp_all add: classifyStep_cases)
    with IH False show ?thesis
      by (auto simp: unsortedOf_def prefixesOf_def groupOf_def)
  next
    case True
    show ?thesis
    proof (cases "sectionOf f")
      case None
      then have "s1 = secs" "u1 = u @ [f]" using st True by (simp_all add: classifyStep_cases)
      with IH True None show ?thesis
        by (auto simp: unsortedOf_def prefixesOf_def groupOf_def)
    next
      case (Some p)
      then have s1: "s1 = sectionsPush p f secs" and u1: "u1 = u"
        using st True by (simp_all add: classifyStep_cases)
      have a: "u' = u @ unsortedOf (f # fs)"
        using IH True Some by (simp add: u1 unsortedOf_def)
      have b: "set (map fst secs') = set (map fst secs) \<union> prefixesOf (f # fs)"
        using IH True Some unfolding s1 keys_sectionsPush by (auto simp: prefixesOf_def)
      have c: "distinct (map fst secs) \<longrightarrow> distinct (map fst secs')"
        using IH distinct_sectionsPush unfolding s1 by blast
      have d: "sectionsGet secs' q = sectionsGet secs q @ groupOf q (f # fs)" for q
        using IH True Some unfolding s1 by (auto simp: sectionsGet_sectionsPush groupOf_def)
      from a b c d show ?thesis by blast
    qed
  qed
qed

lemma finite_prefixesOf: "finite (prefixesOf fs)"
proof -
  have "prefixesOf fs \<subseteq> (\<lambda>f. the (sectionOf f)) ` set fs"
    by (force simp: prefixesOf_def)
  then show ?thesis by (rule finite_subset) simp
qed


text \<open>
  The whole function in closed form. In particular \<open>sections[prefix]\<close> is read only at
  keys that are present (lemma \<open>sectionsGet_groups\<close>).
\<close>

lemma sortFilesIntoSections_groups:
  "sortFilesIntoSections lc fs =
     map (mkSection lc fs) (sorted_list_of_set (prefixesOf fs)) @ unsortedPart lc fs"
proof -
  obtain secs u where fl: "foldl classifyStep ([], []) fs = (secs, u)"
    by (cases "foldl classifyStep ([], []) fs")
  from foldl_classifyStep[OF fl]
  have u: "u = unsortedOf fs" and k: "set (map fst secs) = prefixesOf fs"
    and d: "distinct (map fst secs)" and g: "\<And>p. sectionsGet secs p = groupOf p fs"
    by (simp_all add: sectionsGet_def)
  have "sort (map fst secs) = sorted_list_of_set (prefixesOf fs)"
    using d k by (metis sorted_list_of_set_sort_remdups distinct_remdups_id)
  then show ?thesis
    by (simp add: sortFilesIntoSections_def fl u g mkSection_def unsortedPart_def)
qed


lemma sectionsGet_groups:
  assumes "foldl classifyStep ([], []) fs = (secs, u)" and "p \<in> set (map fst secs)"
  shows "map_of secs p = Some (groupOf p fs) \<and> groupOf p fs \<noteq> []"
proof -
  from foldl_classifyStep[OF assms(1)]
  have k: "set (map fst secs) = prefixesOf fs" and g: "sectionsGet secs p = groupOf p fs"
    by (simp_all add: sectionsGet_def)
  from assms(2) have "map_of secs p \<noteq> None"
    by (simp add: map_of_eq_None_iff)
  then obtain fs' where "map_of secs p = Some fs'" by blast
  moreover from this g have "fs' = groupOf p fs" by (simp add: sectionsGet_def)
  moreover have "groupOf p fs \<noteq> []"
    using assms(2) k by (auto simp: prefixesOf_def groupOf_def filter_empty_conv)
  ultimately show ?thesis by simp
qed

subsection \<open>The sort\<close>

lemma mset_insertBy: "mset (insertBy cmp x xs) = add_mset x (mset xs)"
  by (induction xs) auto

lemma mset_sortBy: "mset (sortBy cmp xs) = mset xs"
  by (induction xs) (auto simp: sortBy_def mset_insertBy)

lemma set_sortBy: "set (sortBy cmp xs) = set xs"
  using mset_sortBy[of cmp xs] by (metis set_mset_mset)

lemma sorted_insertBy:
  assumes tot: "\<And>a b. cmp a b \<le> 0 \<or> cmp b a \<le> 0"
    and trans: "\<And>a b c. cmp a b \<le> 0 \<Longrightarrow> cmp b c \<le> 0 \<Longrightarrow> cmp a c \<le> 0"
  shows "sorted_wrt (\<lambda>a b. cmp a b \<le> 0) xs \<Longrightarrow> sorted_wrt (\<lambda>a b. cmp a b \<le> 0) (insertBy cmp x xs)"
proof (induction xs)
  case Nil
  then show ?case by simp
next
  case (Cons y ys)
  show ?case
  proof (cases "cmp x y \<le> 0")
    case True
    with Cons.prems trans show ?thesis by auto
  next
    case False
    then have yx: "cmp y x \<le> 0" using tot by blast
    have "set (insertBy cmp x ys) = insert x (set ys)"
      using mset_insertBy[of cmp x ys] by (metis set_mset_mset set_mset_add_mset_insert)
    with Cons False yx show ?thesis by auto
  qed
qed

lemma sorted_sortBy:
  assumes tot: "\<And>a b. cmp a b \<le> 0 \<or> cmp b a \<le> 0"
    and trans: "\<And>a b c. cmp a b \<le> 0 \<Longrightarrow> cmp b c \<le> 0 \<Longrightarrow> cmp a c \<le> 0"
  shows "sorted_wrt (\<lambda>a b. cmp a b \<le> 0) (sortBy cmp xs)"
proof (induction xs)
  case Nil
  then show ?case by (simp add: sortBy_def)
next
  case (Cons x xs)
  have "sortBy cmp (x # xs) = insertBy cmp x (sortBy cmp xs)" by (simp add: sortBy_def)
  with Cons sorted_insertBy[of cmp, OF tot trans] show ?case by simp
qed


lemma compareFiles_total: "consistentCompare lc \<Longrightarrow> compareFiles lc a b \<le> 0 \<or> compareFiles lc b a \<le> 0"
  unfolding consistentCompare_def compareFiles_def by blast

lemma compareFiles_trans:
  "consistentCompare lc \<Longrightarrow> compareFiles lc a b \<le> 0 \<Longrightarrow> compareFiles lc b c \<le> 0 \<Longrightarrow> compareFiles lc a c \<le> 0"
  unfolding consistentCompare_def compareFiles_def by blast

lemma sorted_sortBy_files:
  "consistentCompare lc \<Longrightarrow> sorted_wrt (\<lambda>a b. compareFiles lc a b \<le> 0) (sortBy (compareFiles lc) xs)"
  by (rule sorted_sortBy) (erule compareFiles_total, erule (2) compareFiles_trans)



lemma asciiCollate_le:
  "asciiCollate a b \<le> 0 \<longleftrightarrow>
     map toLowerChar a < map toLowerChar b \<or> (map toLowerChar a = map toLowerChar b \<and> b \<le> a)"
  unfolding asciiCollate_def by auto

lemma consistentCompare_asciiCollate: "consistentCompare asciiCollate"
  unfolding consistentCompare_def asciiCollate_le
proof (intro conjI allI impI)
  fix a b :: string
  show "(map toLowerChar a < map toLowerChar b \<or> map toLowerChar a = map toLowerChar b \<and> b \<le> a) \<or>
        (map toLowerChar b < map toLowerChar a \<or> map toLowerChar b = map toLowerChar a \<and> a \<le> b)"
    by (cases "map toLowerChar a" "map toLowerChar b" rule: linorder_cases) auto
next
  fix a b c :: string
  assume "(map toLowerChar a < map toLowerChar b \<or> map toLowerChar a = map toLowerChar b \<and> b \<le> a) \<and>
          (map toLowerChar b < map toLowerChar c \<or> map toLowerChar b = map toLowerChar c \<and> c \<le> b)"
  then show "map toLowerChar a < map toLowerChar c \<or> map toLowerChar a = map toLowerChar c \<and> c \<le> a"
    by (auto intro: less_trans order_trans)
qed



subsection \<open>The sections partition the records that have a key\<close>

lemma sum_list_pick:
  "distinct ps \<Longrightarrow>
   (\<Sum>q\<leftarrow>ps. (if q = p then add_mset f (h q) else h q)) =
   (if p \<in> set ps then {#f#} else {#}) + (\<Sum>q\<leftarrow>ps. h q)"
  by (induction ps) auto

lemma groups_partition:
  "distinct ps \<Longrightarrow> prefixesOf fs \<subseteq> set ps \<Longrightarrow>
   (\<Sum>p\<leftarrow>ps. mset (groupOf p fs)) + mset (unsortedOf fs) = mset (filter hasKey fs)"
proof (induction fs)
  case Nil
  then show ?case by (simp add: groupOf_def unsortedOf_def)
next
  case (Cons f fs)
  have sub: "prefixesOf fs \<subseteq> set ps" using Cons.prems(2) by (auto simp: prefixesOf_def)
  note IH = Cons.IH[OF Cons.prems(1) sub]
  show ?case
  proof (cases "hasKey f")
    case False
    then show ?thesis using IH by (simp add: groupOf_def unsortedOf_def)
  next
    case True
    show ?thesis
    proof (cases "sectionOf f")
      case None
      then show ?thesis using IH True by (simp add: groupOf_def unsortedOf_def)
    next
      case (Some p)
      then have pin: "p \<in> set ps" using Cons.prems(2) True by (auto simp: prefixesOf_def)
      have "(\<Sum>q\<leftarrow>ps. mset (groupOf q (f # fs))) =
            (\<Sum>q\<leftarrow>ps. (if q = p then add_mset f (mset (groupOf q fs)) else mset (groupOf q fs)))"
        using True Some by (intro arg_cong[where f=sum_list] map_cong) (auto simp: groupOf_def)
      also have "\<dots> = {#f#} + (\<Sum>q\<leftarrow>ps. mset (groupOf q fs))"
        using sum_list_pick[OF Cons.prems(1), of p f "\<lambda>q. mset (groupOf q fs)"] pin by simp
      finally show ?thesis using IH True Some by (simp add: unsortedOf_def)
    qed
  qed
qed

lemma members_sortFilesIntoSections:
  "mset (members (sortFilesIntoSections lc fs)) = mset (filter hasKey fs)"
proof -
  let ?ps = "sorted_list_of_set (prefixesOf fs)"
  have "mset (members (sortFilesIntoSections lc fs)) =
        (\<Sum>p\<leftarrow>?ps. mset (groupOf p fs)) + mset (unsortedOf fs)"
    by (simp add: sortFilesIntoSections_groups members_def mset_concat comp_def mkSection_def
        unsortedPart_def mset_sortBy)
  also have "\<dots> = mset (filter hasKey fs)"
    by (rule groups_partition) (simp_all add: finite_prefixesOf)
  finally show ?thesis .
qed

lemma hasKey_iff: "hasKey f \<longleftrightarrow> (\<exists>k. Key f = Some k \<and> k \<noteq> [])"
  by (auto simp: hasKey_def split: option.splits)

lemma matchPrefix_Some:
  "matchPrefix k = Some p \<Longrightarrow>
     \<exists>a b rest. k = a # b # CHR ''-'' # rest \<and> p = [a, b] \<and> isLowerAZ a \<and> isLowerAZ b"
  by (cases k rule: matchPrefix.cases) (auto split: if_splits)

lemma prefixesOf_shape:
  "p \<in> prefixesOf fs \<Longrightarrow> \<exists>a b. p = [a, b] \<and> isLowerAZ a \<and> isLowerAZ b"
  unfolding prefixesOf_def sectionOf_def
  by (auto split: option.splits dest!: matchPrefix_Some)

lemma unsorted_not_prefix: "''unsorted'' \<notin> prefixesOf fs"
  using prefixesOf_shape[of "''unsorted''" fs] by auto

lemma prefixes_sortFilesIntoSections:
  "map prefix (sortFilesIntoSections lc fs) =
     sorted_list_of_set (prefixesOf fs) @ (if unsortedOf fs \<noteq> [] then [''unsorted''] else [])"
  by (simp add: sortFilesIntoSections_groups mkSection_def unsortedPart_def comp_def)

lemma distinct_prefixes: "distinct (map prefix (sortFilesIntoSections lc fs))"
  unfolding prefixes_sortFilesIntoSections
  using unsorted_not_prefix[of fs] by (simp add: finite_prefixesOf)

lemma section_member:
  assumes "s \<in> set (sortFilesIntoSections lc fs)" and "f \<in> set (files s)"
  shows "f \<in> set fs \<and> hasKey f \<and> prefix s = sectionName f"
proof -
  from assms(1) consider p where "p \<in> prefixesOf fs" "s = mkSection lc fs p"
    | "s \<in> set (unsortedPart lc fs)"
    unfolding sortFilesIntoSections_groups by (auto simp: finite_prefixesOf)
  then show ?thesis
  proof cases
    case 1
    with assms(2) show ?thesis
      by (auto simp: mkSection_def set_sortBy groupOf_def sectionName_def)
  next
    case 2
    with assms(2) show ?thesis
      by (auto simp: unsortedPart_def set_sortBy unsortedOf_def sectionName_def split: if_splits)
  qed
qed

lemma sectionName_Key: "Key f = Key g \<Longrightarrow> sectionName f = sectionName g"
  by (simp add: sectionName_def sectionOf_def)

lemma sections_disjoint:
  assumes "i < length (sortFilesIntoSections lc fs)" "j < length (sortFilesIntoSections lc fs)" "i \<noteq> j"
  shows "set (map Key (files (sortFilesIntoSections lc fs ! i))) \<inter>
         set (map Key (files (sortFilesIntoSections lc fs ! j))) = {}"
proof -
  let ?out = "sortFilesIntoSections lc fs"
  have ne: "prefix (?out ! i) \<noteq> prefix (?out ! j)"
    using distinct_prefixes[of lc fs] assms by (simp add: distinct_conv_nth)
  have False if "f \<in> set (files (?out ! i))" "g \<in> set (files (?out ! j))" "Key f = Key g" for f g
  proof -
    have "prefix (?out ! i) = sectionName f"
      using section_member[of "?out ! i" lc fs f] assms(1) that(1) by simp
    moreover have "prefix (?out ! j) = sectionName g"
      using section_member[of "?out ! j" lc fs g] assms(2) that(2) by simp
    ultimately show False using ne sectionName_Key[OF that(3)] by simp
  qed
  then show ?thesis by auto
qed

lemma unsortedOf_nonempty:
  "unsortedOf fs \<noteq> [] \<longleftrightarrow> (\<exists>f \<in> set fs. \<exists>k. Key f = Some k \<and> k \<noteq> [] \<and> matchPrefix k = None)"
  unfolding unsortedOf_def filter_empty_conv hasKey_iff sectionOf_def
  by (auto split: option.splits)

lemma prefixesOf_alt:
  "prefixesOf fs = {p. \<exists>f \<in> set fs. \<exists>k. Key f = Some k \<and> k \<noteq> [] \<and> matchPrefix k = Some p}"
  unfolding prefixesOf_def hasKey_iff sectionOf_def
  by (auto split: option.splits)



subsection \<open>The example of the specification\<close>

text \<open>
  \<open>classify([{key:"en-a"}, {key:"es-b"}, {key:"en-c"}, {key:"readme.txt"}])\<close> and
  \<open>classify([])\<close>, with the comparison by code units.
\<close>

lemma spec_example:
  "sortFilesIntoSections lexCompare
      [\<lparr>Key = Some ''en-a'', Size = None, LastModified = None\<rparr>,
       \<lparr>Key = Some ''es-b'', Size = None, LastModified = None\<rparr>,
       \<lparr>Key = Some ''en-c'', Size = None, LastModified = None\<rparr>,
       \<lparr>Key = Some ''readme.txt'', Size = None, LastModified = None\<rparr>] =
   [\<lparr>prefix = ''en'', displayName = ''EN'', files =
       [\<lparr>Key = Some ''en-a'', Size = None, LastModified = None\<rparr>,
        \<lparr>Key = Some ''en-c'', Size = None, LastModified = None\<rparr>]\<rparr>,
    \<lparr>prefix = ''es'', displayName = ''ES'', files =
       [\<lparr>Key = Some ''es-b'', Size = None, LastModified = None\<rparr>]\<rparr>,
    \<lparr>prefix = ''unsorted'', displayName = ''Unsorted'', files =
       [\<lparr>Key = Some ''readme.txt'', Size = None, LastModified = None\<rparr>]\<rparr>]"
  by code_simp

lemma example_collated:
  "sortFilesIntoSections asciiCollate
      [\<lparr>Key = Some ''en-Zebra'', Size = None, LastModified = None\<rparr>,
       \<lparr>Key = Some ''en-apple'', Size = None, LastModified = None\<rparr>,
       \<lparr>Key = Some ''en-Banana'', Size = None, LastModified = None\<rparr>] =
     [\<lparr>prefix = ''en'', displayName = ''EN'', files =
       [\<lparr>Key = Some ''en-apple'', Size = None, LastModified = None\<rparr>,
        \<lparr>Key = Some ''en-Banana'', Size = None, LastModified = None\<rparr>,
        \<lparr>Key = Some ''en-Zebra'', Size = None, LastModified = None\<rparr>]\<rparr>]"
  by code_simp


lemma spec_example_empty: "sortFilesIntoSections lc [] = []"
  by (simp add: sortFilesIntoSections_def)


section \<open>Properties of the classifier\<close>

text \<open>
  Claim C1, as amended. For every input sequence in which every record has a defined and
  non-empty key, and for every comparison function: the keys of the members of the returned
  sections are exactly the input keys; every key occurs among the members as often as in the
  input (so once, when the input keys are unique: nothing is lost and nothing is
  duplicated); and no key occurs in two different sections.
\<close>

theorem classify_covers_keys:
  assumes "\<forall>f \<in> set fs. \<exists>k. Key f = Some k \<and> k \<noteq> []"
  shows "set (map Key (members (sortFilesIntoSections lc fs))) = set (map Key fs) \<and>
         mset (map Key (members (sortFilesIntoSections lc fs))) = mset (map Key fs) \<and>
         (\<forall>i < length (sortFilesIntoSections lc fs). \<forall>j < length (sortFilesIntoSections lc fs).
            i \<noteq> j \<longrightarrow>
            set (map Key (files (sortFilesIntoSections lc fs ! i))) \<inter>
            set (map Key (files (sortFilesIntoSections lc fs ! j))) = {})"
proof -
  have "filter hasKey fs = fs" using assms by (simp add: hasKey_iff)
  then have m: "mset (members (sortFilesIntoSections lc fs)) = mset fs"
    by (simp add: members_sortFilesIntoSections)
  then have k: "mset (map Key (members (sortFilesIntoSections lc fs))) = mset (map Key fs)"
    by (metis mset_map)
  then have "set (map Key (members (sortFilesIntoSections lc fs))) = set (map Key fs)"
    by (metis set_mset_mset)
  with k sections_disjoint[of _ lc fs] show ?thesis by blast
qed

theorem classify_covers_keys_witness:
  "set (map Key (members (sortFilesIntoSections lexCompare
      [\<lparr>Key = Some ''en-a'', Size = Some 1, LastModified = None\<rparr>,
       \<lparr>Key = Some ''es-b'', Size = None, LastModified = None\<rparr>,
       \<lparr>Key = Some ''en-c'', Size = None, LastModified = None\<rparr>,
       \<lparr>Key = Some ''readme.txt'', Size = None, LastModified = None\<rparr>])))
   = {Some ''en-a'', Some ''es-b'', Some ''en-c'', Some ''readme.txt''}"
  using classify_covers_keys[of
      "[\<lparr>Key = Some ''en-a'', Size = Some 1, LastModified = None\<rparr>,
       \<lparr>Key = Some ''es-b'', Size = None, LastModified = None\<rparr>,
       \<lparr>Key = Some ''en-c'', Size = None, LastModified = None\<rparr>,
       \<lparr>Key = Some ''readme.txt'', Size = None, LastModified = None\<rparr>]" lexCompare]
  by simp


text \<open>
  Claim C1 as it is stated asks only for a defined key. The empty string is a defined key, and
  the guard \<open>if (!file.Key) return\<close> drops it: the record is lost.
\<close>

theorem classify_empty_key_counterexample:
  "Key \<lparr>Key = Some '''', Size = None, LastModified = None\<rparr> \<noteq> None \<and>
   set (map Key (members (sortFilesIntoSections lexCompare
      [\<lparr>Key = Some '''', Size = None, LastModified = None\<rparr>])))
   \<noteq> set (map Key [\<lparr>Key = Some '''', Size = None, LastModified = None\<rparr>])"
  by (simp add: sortFilesIntoSections_def classifyStep_def members_def)


text \<open>
  Claim C3, as amended. For every input sequence the prefixes of the returned sections are a
  strictly ascending list (in the lexicographic order of the strings) of two-letter prefixes
  over \<open>a..z\<close>, one for every prefix matched by a record with a defined, non-empty key,
  followed by \<open>unsorted\<close> exactly when some record with a defined, non-empty key fails the
  pattern.
\<close>

theorem classify_section_order:
  "\<exists>ps. map prefix (sortFilesIntoSections lc fs) =
          ps @ (if (\<exists>f \<in> set fs. \<exists>k. Key f = Some k \<and> k \<noteq> [] \<and> matchPrefix k = None)
                then [''unsorted''] else []) \<and>
        sorted_wrt (<) ps \<and>
        set ps = {p. \<exists>f \<in> set fs. \<exists>k. Key f = Some k \<and> k \<noteq> [] \<and> matchPrefix k = Some p} \<and>
        (\<forall>p \<in> set ps. \<exists>a b. p = [a, b] \<and> isLowerAZ a \<and> isLowerAZ b)"
proof -
  let ?ps = "sorted_list_of_set (prefixesOf fs)"
  have 1: "map prefix (sortFilesIntoSections lc fs) =
          ?ps @ (if (\<exists>f \<in> set fs. \<exists>k. Key f = Some k \<and> k \<noteq> [] \<and> matchPrefix k = None)
                then [''unsorted''] else [])"
    unfolding prefixes_sortFilesIntoSections unsortedOf_nonempty ..
  have 2: "sorted_wrt (<) ?ps"
    by (simp add: strict_sorted_iff)
  have 3: "set ?ps = {p. \<exists>f \<in> set fs. \<exists>k. Key f = Some k \<and> k \<noteq> [] \<and> matchPrefix k = Some p}"
    unfolding prefixesOf_alt[symmetric] by (simp add: finite_prefixesOf)
  have 4: "\<forall>p \<in> set ?ps. \<exists>a b. p = [a, b] \<and> isLowerAZ a \<and> isLowerAZ b"
    using prefixesOf_shape[of _ fs] by (simp add: finite_prefixesOf)
  from 1 2 3 4 show ?thesis by blast
qed

theorem classify_section_order_witness:
  "\<exists>ps. map prefix (sortFilesIntoSections lexCompare
      [\<lparr>Key = Some ''es-b'', Size = None, LastModified = None\<rparr>,
       \<lparr>Key = Some ''readme.txt'', Size = None, LastModified = None\<rparr>,
       \<lparr>Key = Some ''en-a'', Size = None, LastModified = None\<rparr>]) = ps @ [''unsorted''] \<and>
     sorted_wrt (<) ps \<and> set ps = {''en'', ''es''} \<and>
     (\<forall>p \<in> set ps. \<exists>a b. p = [a, b] \<and> isLowerAZ a \<and> isLowerAZ b)"
proof -
  have "{p. \<exists>f \<in> set [\<lparr>Key = Some ''es-b'', Size = None, LastModified = None\<rparr>,
       \<lparr>Key = Some ''readme.txt'', Size = None, LastModified = None\<rparr>,
       \<lparr>Key = Some ''en-a'', Size = None, LastModified = None\<rparr>].
          \<exists>k. Key f = Some k \<and> k \<noteq> [] \<and> matchPrefix k = Some p} = {''en'', ''es''}"
    by (auto simp: isLowerAZ_def)
  then show ?thesis
    using classify_section_order[of lexCompare
      "[\<lparr>Key = Some ''es-b'', Size = None, LastModified = None\<rparr>,
       \<lparr>Key = Some ''readme.txt'', Size = None, LastModified = None\<rparr>,
       \<lparr>Key = Some ''en-a'', Size = None, LastModified = None\<rparr>]"]
    by simp
qed


text \<open>
  Claim C3 as it is stated counts every record that fails the pattern. The empty key fails
  it, and yet there is no \<open>unsorted\<close> section: the record is dropped before the match.
\<close>

theorem classify_unsorted_counterexample:
  "matchPrefix '''' = None \<and>
   ''unsorted'' \<notin> set (map prefix (sortFilesIntoSections lexCompare
      [\<lparr>Key = Some '''', Size = None, LastModified = None\<rparr>]))"
  by (simp add: sortFilesIntoSections_def classifyStep_def)


text \<open>
  Claim C4, as amended. Within every returned section the members are in ascending order of
  the comparison that the code sorts with, \<open>localeCompare\<close> on their keys: this holds for
  every consistent comparison function. The result is a function of the input, so that
  repeated calls agree.
\<close>

theorem classify_members_sorted:
  assumes "consistentCompare lc"
  shows "\<forall>s \<in> set (sortFilesIntoSections lc fs).
           sorted_wrt (\<lambda>a b. lc (keyOrEmpty a) (keyOrEmpty b) \<le> 0) (files s)"
proof
  fix s
  assume "s \<in> set (sortFilesIntoSections lc fs)"
  then obtain xs where "files s = sortBy (compareFiles lc) xs"
    unfolding sortFilesIntoSections_groups
    by (auto simp: mkSection_def unsortedPart_def split: if_splits)
  with sorted_sortBy_files[OF assms, of xs]
  show "sorted_wrt (\<lambda>a b. lc (keyOrEmpty a) (keyOrEmpty b) \<le> 0) (files s)"
    by (simp add: compareFiles_def)
qed

theorem classify_members_sorted_witness:
  "consistentCompare asciiCollate \<and>
   length (sortFilesIntoSections asciiCollate
      [\<lparr>Key = Some ''en-Zebra'', Size = None, LastModified = None\<rparr>,
       \<lparr>Key = Some ''en-apple'', Size = None, LastModified = None\<rparr>,
       \<lparr>Key = Some ''en-Banana'', Size = None, LastModified = None\<rparr>]) = 1 \<and>
   sorted_wrt (\<lambda>a b. asciiCollate (keyOrEmpty a) (keyOrEmpty b) \<le> 0)
     (files (sortFilesIntoSections asciiCollate
      [\<lparr>Key = Some ''en-Zebra'', Size = None, LastModified = None\<rparr>,
       \<lparr>Key = Some ''en-apple'', Size = None, LastModified = None\<rparr>,
       \<lparr>Key = Some ''en-Banana'', Size = None, LastModified = None\<rparr>] ! 0)) \<and>
   map keyOrEmpty (files (sortFilesIntoSections asciiCollate
      [\<lparr>Key = Some ''en-Zebra'', Size = None, LastModified = None\<rparr>,
       \<lparr>Key = Some ''en-apple'', Size = None, LastModified = None\<rparr>,
       \<lparr>Key = Some ''en-Banana'', Size = None, LastModified = None\<rparr>] ! 0)) =
     [''en-apple'', ''en-Banana'', ''en-Zebra'']"
  using classify_members_sorted[OF consistentCompare_asciiCollate, of
      "[\<lparr>Key = Some ''en-Zebra'', Size = None, LastModified = None\<rparr>,
       \<lparr>Key = Some ''en-apple'', Size = None, LastModified = None\<rparr>,
       \<lparr>Key = Some ''en-Banana'', Size = None, LastModified = None\<rparr>]"]
    consistentCompare_asciiCollate
  by (simp add: example_collated keyOrEmpty_def)


text \<open>
  Claim C4 as it is stated orders the members lexicographically. The order of
  \<open>localeCompare\<close> is the collation of the locale: on its answers the section holds
  \<open>en-apple\<close>, \<open>en-Banana\<close>, \<open>en-Zebra\<close> in this order, which is not the lexicographic
  order of the keys (there \<open>en-Banana\<close> and \<open>en-Zebra\<close> come before \<open>en-apple\<close>).
\<close>

theorem classify_lexicographic_counterexample:
  "asciiCollate ''en-apple'' ''en-Banana'' = - 1 \<and>
   asciiCollate ''en-Banana'' ''en-Zebra'' = - 1 \<and>
   asciiCollate ''en-apple'' ''en-Zebra'' = - 1 \<and>
   sortFilesIntoSections asciiCollate
      [\<lparr>Key = Some ''en-Zebra'', Size = None, LastModified = None\<rparr>,
       \<lparr>Key = Some ''en-apple'', Size = None, LastModified = None\<rparr>,
       \<lparr>Key = Some ''en-Banana'', Size = None, LastModified = None\<rparr>] =
     [\<lparr>prefix = ''en'', displayName = ''EN'', files =
       [\<lparr>Key = Some ''en-apple'', Size = None, LastModified = None\<rparr>,
        \<lparr>Key = Some ''en-Banana'', Size = None, LastModified = None\<rparr>,
        \<lparr>Key = Some ''en-Zebra'', Size = None, LastModified = None\<rparr>]\<rparr>] \<and>
   \<not> sorted [''en-apple'', ''en-Banana'', ''en-Zebra'']"
proof -
  have 1: "asciiCollate ''en-apple'' ''en-Banana'' = - 1" by code_simp
  have 2: "asciiCollate ''en-Banana'' ''en-Zebra'' = - 1" by code_simp
  have 3: "asciiCollate ''en-apple'' ''en-Zebra'' = - 1" by code_simp
  have 4: "sortFilesIntoSections asciiCollate
      [\<lparr>Key = Some ''en-Zebra'', Size = None, LastModified = None\<rparr>,
       \<lparr>Key = Some ''en-apple'', Size = None, LastModified = None\<rparr>,
       \<lparr>Key = Some ''en-Banana'', Size = None, LastModified = None\<rparr>] =
     [\<lparr>prefix = ''en'', displayName = ''EN'', files =
       [\<lparr>Key = Some ''en-apple'', Size = None, LastModified = None\<rparr>,
        \<lparr>Key = Some ''en-Banana'', Size = None, LastModified = None\<rparr>,
        \<lparr>Key = Some ''en-Zebra'', Size = None, LastModified = None\<rparr>]\<rparr>]"
    by code_simp
  have 5: "\<not> sorted [''en-apple'', ''en-Banana'', ''en-Zebra'']" by code_simp
  from 1 2 3 4 5 show ?thesis by blast
qed







text \<open>
  Claim C10. A record whose \<open>Key\<close> is undefined is dropped without a trace: the result is the
  one of the input without that record, the record is a member of no section (prefix or
  unsorted), and the sections hold strictly fewer records than the input has.
\<close>

theorem classify_drops_keyless:
  assumes "Key f = None"
  shows "sortFilesIntoSections lc (xs @ f # ys) = sortFilesIntoSections lc (xs @ ys) \<and>
         f \<notin> set (members (sortFilesIntoSections lc (xs @ f # ys))) \<and>
         length (members (sortFilesIntoSections lc (xs @ f # ys))) < length (xs @ f # ys)"
proof -
  have 1: "sortFilesIntoSections lc (xs @ f # ys) = sortFilesIntoSections lc (xs @ ys)"
    by (simp add: sortFilesIntoSections_def classifyStep_no_key[OF assms])
  have nk: "\<not> hasKey f" using assms by (simp add: hasKey_def)
  have "set (members (sortFilesIntoSections lc (xs @ f # ys))) = set (filter hasKey (xs @ f # ys))"
    using members_sortFilesIntoSections[of lc "xs @ f # ys"] by (metis set_mset_mset)
  then have 2: "f \<notin> set (members (sortFilesIntoSections lc (xs @ f # ys)))"
    using nk by simp
  have "length (members (sortFilesIntoSections lc (xs @ f # ys))) = length (filter hasKey (xs @ f # ys))"
    using members_sortFilesIntoSections[of lc "xs @ f # ys"] by (metis size_mset)
  also have "\<dots> = length (filter hasKey xs) + length (filter hasKey ys)" using nk by simp
  also have "\<dots> < length (xs @ f # ys)"
    using length_filter_le[of hasKey xs] length_filter_le[of hasKey ys] by (simp add: less_Suc_eq_le add_mono)
  finally have 3: "length (members (sortFilesIntoSections lc (xs @ f # ys))) < length (xs @ f # ys)" .
  from 1 2 3 show ?thesis by blast
qed

theorem classify_drops_keyless_witness:
  "Key \<lparr>Key = None, Size = Some 7, LastModified = None\<rparr> = None \<and>
   sortFilesIntoSections lexCompare
     ([\<lparr>Key = Some ''en-a'', Size = None, LastModified = None\<rparr>] @
      \<lparr>Key = None, Size = Some 7, LastModified = None\<rparr> #
      [\<lparr>Key = Some ''readme.txt'', Size = None, LastModified = None\<rparr>]) =
   sortFilesIntoSections lexCompare
     ([\<lparr>Key = Some ''en-a'', Size = None, LastModified = None\<rparr>] @
      [\<lparr>Key = Some ''readme.txt'', Size = None, LastModified = None\<rparr>]) \<and>
   length (members (sortFilesIntoSections lexCompare
     ([\<lparr>Key = Some ''en-a'', Size = None, LastModified = None\<rparr>] @
      \<lparr>Key = None, Size = Some 7, LastModified = None\<rparr> #
      [\<lparr>Key = Some ''readme.txt'', Size = None, LastModified = None\<rparr>]))) <
   length ([\<lparr>Key = Some ''en-a'', Size = None, LastModified = None\<rparr>] @
      \<lparr>Key = None, Size = Some 7, LastModified = None\<rparr> #
      [\<lparr>Key = Some ''readme.txt'', Size = None, LastModified = None\<rparr>])"
proof -
  have k: "Key \<lparr>Key = None, Size = Some 7, LastModified = None\<rparr> = None" by simp
  show ?thesis
    using k classify_drops_keyless[OF k, of lexCompare
      "[\<lparr>Key = Some ''en-a'', Size = None, LastModified = None\<rparr>]"
      "[\<lparr>Key = Some ''readme.txt'', Size = None, LastModified = None\<rparr>]"]
    by blast
qed


section \<open>Rounding to double precision\<close>

text \<open>
  The binade of a positive rational brackets it between two powers of two; rounding keeps a
  number inside the closed binade, hence \<open>roundToDouble\<close> is monotone on the non-negative
  rationals; it is exact on 1 and on 100.
\<close>

lemma bitlen_powi_bounds:
  assumes "0 < p"
  shows "(2::rat) powi (bitlen p - 1) \<le> of_int p" and "of_int p < (2::rat) powi (bitlen p)"
proof -
  from bitlen_bounds[OF assms] have a: "2 ^ nat (bitlen p - 1) \<le> p" and b: "p < 2 ^ nat (bitlen p)"
    by simp_all
  have ge1: "1 \<le> bitlen p" using assms bitlen_eq_zero_iff[of p] bitlen_nonneg[of p] by linarith
  have "(of_int (2 ^ nat (bitlen p - 1)) :: rat) \<le> of_int p" using a by (simp only: of_int_le_iff)
  then show "(2::rat) powi (bitlen p - 1) \<le> of_int p" using ge1 by (simp add: power_int_def)
  have "(of_int p :: rat) < of_int (2 ^ nat (bitlen p))" using b by (simp only: of_int_less_iff)
  then show "of_int p < (2::rat) powi (bitlen p)" using ge1 by (simp add: power_int_def)
qed

lemma binade_bounds:
  assumes "0 < x"
  shows "2 powi (binade x) \<le> x" and "x < 2 powi (binade x + 1)"
proof -
  obtain p q where pq: "quotient_of x = (p, q)" by (cases "quotient_of x")
  have q: "0 < q" using quotient_of_denom_pos[OF pq] .
  have x: "x = of_int p / of_int q" using quotient_of_div[OF pq] .
  have p: "0 < p" using assms q unfolding x by (simp add: zero_less_divide_iff)
  let ?d = "bitlen p - bitlen q"
  note P = bitlen_powi_bounds[OF p] and Q = bitlen_powi_bounds[OF q]
  have up: "x < 2 powi (?d + 1)"
  proof -
    have "of_int p / of_int q < (2::rat) powi (bitlen p) / 2 powi (bitlen q - 1)"
      using P(2) Q(1) p by (intro frac_less) simp_all
    also have "\<dots> = 2 powi (bitlen p - (bitlen q - 1))" by (simp add: power_int_diff)
    finally show ?thesis by (simp add: x algebra_simps)
  qed
  have lo: "2 powi (?d - 1) \<le> x"
  proof -
    have "(2::rat) powi (bitlen p - 1) / 2 powi (bitlen q) < of_int p / of_int q"
      using P(1) Q(2) q by (intro frac_less2) simp_all
    moreover have "(2::rat) powi (bitlen p - 1) / 2 powi (bitlen q) = 2 powi (bitlen p - 1 - bitlen q)"
      by (simp add: power_int_diff)
    ultimately show ?thesis by (simp add: x algebra_simps)
  qed
  have b: "binade x = (if 2 powi ?d \<le> x then ?d else ?d - 1)"
    by (simp add: binade_def pq Let_def)
  show "2 powi (binade x) \<le> x" using lo unfolding b by simp
  show "x < 2 powi (binade x + 1)" using up unfolding b by (simp add: not_le)
qed

lemma binade_mono:
  assumes "0 < x" "x \<le> y"
  shows "binade x \<le> binade y"
proof (rule ccontr)
  assume "\<not> binade x \<le> binade y"
  then have "binade y + 1 \<le> binade x" by simp
  then have "(2::rat) powi (binade y + 1) \<le> 2 powi (binade x)"
    by (intro power_int_increasing) simp_all
  with binade_bounds(1)[OF assms(1)] binade_bounds(2)[of y] assms show False by simp
qed

lemma roundEven_of_int [simp]: "roundEven (of_int n) = n"
  by (simp add: roundEven_def)

lemma roundEven_bounds: "\<lfloor>y\<rfloor> \<le> roundEven y" "roundEven y \<le> \<lfloor>y\<rfloor> + 1"
  by (simp_all add: roundEven_def Let_def)

lemma roundEven_mono:
  assumes "a \<le> b"
  shows "roundEven a \<le> roundEven b"
proof (cases "\<lfloor>a\<rfloor> = \<lfloor>b\<rfloor>")
  case True
  then show ?thesis using assms by (auto simp: roundEven_def Let_def)
next
  case False
  then have "\<lfloor>a\<rfloor> + 1 \<le> \<lfloor>b\<rfloor>" using floor_mono[OF assms] by simp
  with roundEven_bounds(2)[of a] roundEven_bounds(1)[of b] show ?thesis by linarith
qed

lemma roundToDouble_pos:
  assumes "0 < x"
  shows "roundToDouble x = of_int (roundEven (x / 2 powi (binade x - 52))) * 2 powi (binade x - 52)"
  using assms by (simp add: roundToDouble_def Let_def)

lemma scaled_bounds:
  assumes "0 < x"
  shows "2 ^ 52 \<le> x / 2 powi (binade x - 52)" and "x / 2 powi (binade x - 52) \<le> 2 ^ 53"
proof -
  define r where "r = x / 2 powi (binade x)"
  have pos: "(0::rat) < 2 powi (binade x)" by simp
  have e: "x / 2 powi (binade x - 52) = r * 2 ^ 52"
    unfolding r_def by (simp add: power_int_diff)
  have r1: "1 \<le> r"
    unfolding r_def using binade_bounds(1)[OF assms] pos by (simp add: le_divide_eq)
  have r2: "r \<le> 2"
    unfolding r_def using binade_bounds(2)[OF assms] pos
    by (simp add: divide_le_eq power_int_add mult.commute)
  have "1 * (2::rat) ^ 52 \<le> r * 2 ^ 52" using r1 by (intro mult_right_mono) simp_all
  then show "2 ^ 52 \<le> x / 2 powi (binade x - 52)" unfolding e by simp
  have "r * 2 ^ 52 \<le> 2 * (2::rat) ^ 52" using r2 by (intro mult_right_mono) simp_all
  then show "x / 2 powi (binade x - 52) \<le> 2 ^ 53" unfolding e by simp
qed

lemma roundToDouble_bounds:
  assumes "0 < x"
  shows "2 powi (binade x) \<le> roundToDouble x" and "roundToDouble x \<le> 2 powi (binade x + 1)"
proof -
  let ?u = "(2::rat) powi (binade x - 52)"
  let ?m = "roundEven (x / ?u)"
  have "roundEven (of_int (2 ^ 52)) \<le> ?m"
    using scaled_bounds(1)[OF assms] by (intro roundEven_mono) simp
  then have lo: "(2::rat) ^ 52 \<le> of_int ?m" unfolding roundEven_of_int
    by (metis of_int_le_iff of_int_numeral of_int_power)
  have "?m \<le> roundEven (of_int (2 ^ 53))"
    using scaled_bounds(2)[OF assms] by (intro roundEven_mono) simp
  then have hi: "of_int ?m \<le> (2::rat) ^ 53" unfolding roundEven_of_int
    by (metis of_int_le_iff of_int_numeral of_int_power)
  have u: "(0::rat) < ?u" by simp
  have e1: "(2::rat) powi (binade x) = 2 ^ 52 * ?u" by (simp add: power_int_diff)
  have e2: "(2::rat) powi (binade x + 1) = 2 ^ 53 * ?u" by (simp add: power_int_diff power_int_add)
  show "2 powi (binade x) \<le> roundToDouble x"
    unfolding roundToDouble_pos[OF assms] e1 using lo u by (intro mult_right_mono) simp_all
  show "roundToDouble x \<le> 2 powi (binade x + 1)"
    unfolding roundToDouble_pos[OF assms] e2 using hi u by (intro mult_right_mono) simp_all
qed

lemma roundToDouble_zero [simp]: "roundToDouble 0 = 0"
  by (simp add: roundToDouble_def)

lemma roundToDouble_nonneg: "0 \<le> x \<Longrightarrow> 0 \<le> roundToDouble x"
proof (cases "x = 0")
  case True
  then show ?thesis by simp
next
  case False
  assume "0 \<le> x"
  with False have "0 < x" by simp
  from roundToDouble_bounds(1)[OF this] show ?thesis
    by (meson zero_less_power_int order_trans less_imp_le zero_less_numeral)
qed

lemma roundToDouble_mono:
  assumes "0 \<le> x" "x \<le> y"
  shows "roundToDouble x \<le> roundToDouble y"
proof (cases "x = 0")
  case True
  then show ?thesis using roundToDouble_nonneg[of y] assms by simp
next
  case False
  then have x: "0 < x" and y: "0 < y" using assms by simp_all
  show ?thesis
  proof (cases "binade x = binade y")
    case True
    have "roundEven (x / 2 powi (binade y - 52)) \<le> roundEven (y / 2 powi (binade y - 52))"
      using assms(2) by (intro roundEven_mono divide_right_mono) simp_all
    then show ?thesis
      unfolding roundToDouble_pos[OF x] roundToDouble_pos[OF y] True
      by (intro mult_right_mono) simp_all
  next
    case False
    then have "binade x + 1 \<le> binade y" using binade_mono[OF x assms(2)] by simp
    then have "(2::rat) powi (binade x + 1) \<le> 2 powi (binade y)"
      by (intro power_int_increasing) simp_all
    with roundToDouble_bounds(2)[OF x] roundToDouble_bounds(1)[OF y] show ?thesis by linarith
  qed
qed

lemma roundToDouble_1: "roundToDouble 1 = 1" by code_simp

lemma roundToDouble_100: "roundToDouble 100 = 100" by code_simp

lemma mathRound_mono: "a \<le> b \<Longrightarrow> mathRound a \<le> mathRound b"
  unfolding mathRound_def by (intro floor_mono) simp

lemma mathRound_100: "mathRound 100 = 100" by code_simp

lemma mathRound_0: "mathRound 0 = 0" by code_simp


subsection \<open>The percentage\<close>

lemma progressOf_mono:
  assumes "0 < t" "l \<le> l'"
  shows "progressOf l t \<le> progressOf l' t"
proof -
  have "(of_nat l :: rat) / of_int t \<le> of_nat l' / of_int t"
    using assms by (intro divide_right_mono) simp_all
  moreover have "(0::rat) \<le> of_nat l / of_int t" using assms by simp
  ultimately have d: "jsDiv (of_nat l) (of_int t) \<le> jsDiv (of_nat l') (of_int t)"
    unfolding jsDiv_def by (intro roundToDouble_mono)
  have d0: "0 \<le> jsDiv (of_nat l) (of_int t)"
    unfolding jsDiv_def using assms by (intro roundToDouble_nonneg) simp
  have "jsMul (jsDiv (of_nat l) (of_int t)) 100 \<le> jsMul (jsDiv (of_nat l') (of_int t)) 100"
    unfolding jsMul_def using d d0 by (intro roundToDouble_mono) simp_all
  then show ?thesis unfolding progressOf_def by (rule mathRound_mono)
qed

lemma progressOf_full: "0 < t \<Longrightarrow> progressOf (nat t) t = 100"
  by (simp add: progressOf_def jsDiv_def jsMul_def roundToDouble_1 roundToDouble_100 mathRound_100)

lemma progressOf_zero: "0 < t \<Longrightarrow> progressOf 0 t = 0"
  by (simp add: progressOf_def jsDiv_def jsMul_def mathRound_0)

lemma progressOf_nonneg: "0 < t \<Longrightarrow> 0 \<le> progressOf l t"
  using progressOf_mono[of t 0 l] progressOf_zero[of t] by simp

lemma progressOf_le_100: "0 < t \<Longrightarrow> int l \<le> t \<Longrightarrow> progressOf l t \<le> 100"
  using progressOf_mono[of t l "nat t"] progressOf_full[of t] by simp


text \<open>Two values of the percentage, in double precision: 29 of 200 bytes is not 15.\<close>

lemma progressOf_examples: "progressOf 2 3 = 67" "progressOf 29 200 = 14"
  by code_simp+


section \<open>The downloader: the effects of a call\<close>

subsection \<open>Reading the effects\<close>

lemma progressValues_simps [simp]:
  "progressValues k [] = []"
  "progressValues k (SetProgress k' v # evs) = (if k' = k then v # progressValues k evs else progressValues k evs)"
  "progressValues k (AddDownloading a # evs) = progressValues k evs"
  "progressValues k (SignUrl a b # evs) = progressValues k evs"
  "progressValues k (Fetch a # evs) = progressValues k evs"
  "progressValues k (Read r # evs) = progressValues k evs"
  "progressValues k (Blob # evs) = progressValues k evs"
  "progressValues k (SaveAs a bs # evs) = progressValues k evs"
  "progressValues k (Alert a # evs) = progressValues k evs"
  "progressValues k (RemoveDownloading a # evs) = progressValues k evs"
  "progressValues k (RemoveProgress a # evs) = progressValues k evs"
  by (simp_all add: progressValues_def)

lemma progressValues_append [simp]:
  "progressValues k (xs @ ys) = progressValues k xs @ progressValues k ys"
  by (simp add: progressValues_def)

lemma readsOf_simps [simp]:
  "readsOf [] = []"
  "readsOf (Read r # evs) = r # readsOf evs"
  "readsOf (SetProgress k' v # evs) = readsOf evs"
  "readsOf (AddDownloading a # evs) = readsOf evs"
  "readsOf (SignUrl a b # evs) = readsOf evs"
  "readsOf (Fetch a # evs) = readsOf evs"
  "readsOf (Blob # evs) = readsOf evs"
  "readsOf (SaveAs a bs # evs) = readsOf evs"
  "readsOf (Alert a # evs) = readsOf evs"
  "readsOf (RemoveDownloading a # evs) = readsOf evs"
  "readsOf (RemoveProgress a # evs) = readsOf evs"
  by (simp_all add: readsOf_def)

lemma readsOf_append [simp]: "readsOf (xs @ ys) = readsOf xs @ readsOf ys"
  by (simp add: readsOf_def)

lemma chunksOf_simps [simp]:
  "chunksOf [] = []"
  "chunksOf (Read (ReadChunk c) # evs) = c # chunksOf evs"
  "chunksOf (Read ReadDone # evs) = chunksOf evs"
  "chunksOf (Read ReadFails # evs) = chunksOf evs"
  "chunksOf (SetProgress k' v # evs) = chunksOf evs"
  "chunksOf (AddDownloading a # evs) = chunksOf evs"
  "chunksOf (SignUrl a b # evs) = chunksOf evs"
  "chunksOf (Fetch a # evs) = chunksOf evs"
  "chunksOf (Blob # evs) = chunksOf evs"
  "chunksOf (SaveAs a bs # evs) = chunksOf evs"
  "chunksOf (Alert a # evs) = chunksOf evs"
  "chunksOf (RemoveDownloading a # evs) = chunksOf evs"
  "chunksOf (RemoveProgress a # evs) = chunksOf evs"
  by (simp_all add: chunksOf_def)

lemma chunksOf_append [simp]: "chunksOf (xs @ ys) = chunksOf xs @ chunksOf ys"
  by (simp add: chunksOf_def)

lemma bytesRead_append [simp]: "bytesRead (xs @ ys) = bytesRead xs + bytesRead ys"
  by (simp add: bytesRead_def)

lemma bytesRead_Nil [simp]: "bytesRead [] = 0"
  by (simp add: bytesRead_def)

lemma progressValues_split:
  "v \<in> set (progressValues k xs) \<Longrightarrow> \<exists>pre post. xs = pre @ SetProgress k v # post"
proof (induction xs)
  case Nil
  then show ?case by simp
next
  case (Cons e xs)
  show ?case
  proof (cases "e = SetProgress k v")
    case True
    then have "e # xs = [] @ SetProgress k v # xs" by simp
    then show ?thesis by blast
  next
    case False
    with Cons.prems have "v \<in> set (progressValues k xs)"
      by (cases e) (auto split: if_splits)
    from Cons.IH[OF this] obtain pre post where "xs = pre @ SetProgress k v # post" by blast
    then have "e # xs = (e # pre) @ SetProgress k v # post" by simp
    then show ?thesis by blast
  qed
qed

lemma progressValues_take: "set (progressValues k (take n evs)) \<subseteq> set (progressValues k evs)"
proof -
  have "progressValues k evs = progressValues k (take n evs) @ progressValues k (drop n evs)"
    by (metis progressValues_append append_take_drop_id)
  then show ?thesis by simp
qed

lemma bytesRead_take_le: "bytesRead (take n xs) \<le> bytesRead xs"
proof -
  have "bytesRead xs = bytesRead (take n xs) + bytesRead (drop n xs)"
    by (metis bytesRead_append append_take_drop_id)
  then show ?thesis by simp
qed

lemma split_middle:
  "xs @ ys @ zs = pre @ e # post \<Longrightarrow> e \<notin> set xs \<Longrightarrow> e \<notin> set zs \<Longrightarrow>
     \<exists>pre' post'. pre = xs @ pre' \<and> ys = pre' @ e # post' \<and> post = post' @ zs"
proof (induction xs arbitrary: pre)
  case Nil
  from Nil(1) have "ys @ zs = pre @ e # post" by simp
  then obtain us where "(ys = pre @ us \<and> us @ zs = e # post) \<or> (ys @ us = pre \<and> zs = us @ e # post)"
    unfolding append_eq_append_conv2 by blast
  then show ?case
  proof
    assume a: "ys = pre @ us \<and> us @ zs = e # post"
    show ?thesis
    proof (cases us)
      case Nil
      with a Nil.prems(3) show ?thesis by auto
    next
      case (Cons u us')
      with a have "u = e" "post = us' @ zs" "ys = pre @ e # us'" by auto
      then show ?thesis by auto
    qed
  next
    assume "ys @ us = pre \<and> zs = us @ e # post"
    with Nil.prems(3) show ?thesis by auto
  qed
next
  case (Cons x xs)
  from Cons.prems(1,2) obtain pre0 where p: "pre = x # pre0" and r: "xs @ ys @ zs = pre0 @ e # post"
    by (cases pre) auto
  from Cons.IH[OF r] Cons.prems(2,3) obtain pre' post' where
    "pre0 = xs @ pre'" "ys = pre' @ e # post'" "post = post' @ zs" by auto
  with p show ?case by auto
qed


subsection \<open>The state after the effects\<close>

lemma runEvents_append: "runEvents st (xs @ ys) = runEvents (runEvents st xs) ys"
  by (simp add: runEvents_def)

lemma runEvents_Nil [simp]: "runEvents st [] = st"
  by (simp add: runEvents_def)

lemma runEvents_Cons: "runEvents st (e # es) = runEvents (applyEvent st e) es"
  by (simp add: runEvents_def)

lemma runEvents_cleanup:
  "k \<notin> downloadingFiles (runEvents st (pre @ [RemoveDownloading k, RemoveProgress k])) \<and>
   downloadProgress (runEvents st (pre @ [RemoveDownloading k, RemoveProgress k])) k = None"
  by (simp add: runEvents_append runEvents_Cons)

lemma stored_progress:
  "downloadProgress (runEvents st evs) k = Some v \<Longrightarrow>
     v \<in> set (progressValues k evs) \<or> downloadProgress st k = Some v"
proof (induction evs arbitrary: st)
  case Nil
  then show ?case by simp
next
  case (Cons e evs)
  from Cons.prems have "downloadProgress (runEvents (applyEvent st e) evs) k = Some v"
    by (simp add: runEvents_Cons)
  from Cons.IH[OF this] show ?case
    by (cases e) (auto split: if_splits)
qed


subsection \<open>The read loop\<close>

text \<open>Whenever the loop returns, its effects have the shape of \<open>loopShape\<close>.\<close>

lemma readLoop_shape:
  assumes "readLoop key tot reader n chunks loaded evs = Some y"
  shows "\<exists>tail. fst y = evs @ tail \<and> loopShape key tot reader n loaded tail \<and>
       snd y = (if last tail = Read ReadDone then Some (chunks @ chunksOf tail) else None)"
  using assms
proof (induction rule: readLoop.raw_induct[rotated, consumes 1])
  case (1 f key tot reader n chunks loaded evs y)
  show ?case
  proof (cases "reader n")
    case (ReadChunk v)
    with 1(2) have "f key tot reader (Suc n) (chunks @ [v]) (loaded + length v)
        (evs @ [Read (ReadChunk v), SetProgress key (progressOf (loaded + length v) tot)]) = Some y"
      by simp
    from 1(1)[OF this] obtain tail where
      t: "fst y = (evs @ [Read (ReadChunk v), SetProgress key (progressOf (loaded + length v) tot)]) @ tail"
        "loopShape key tot reader (Suc n) (loaded + length v) tail"
        "snd y = (if last tail = Read ReadDone then Some ((chunks @ [v]) @ chunksOf tail) else None)"
      by blast
    have ne: "tail \<noteq> []" using t(2) by auto
    let ?tail = "Read (ReadChunk v) # SetProgress key (progressOf (loaded + length v) tot) # tail"
    have "fst y = evs @ ?tail" using t(1) by simp
    moreover have "loopShape key tot reader n loaded ?tail" using t(2) ReadChunk by simp
    moreover have "snd y = (if last ?tail = Read ReadDone then Some (chunks @ chunksOf ?tail) else None)"
      using t(3) ne by simp
    ultimately show ?thesis by blast
  next
    case ReadDone
    with 1(2) have "y = (evs @ [Read ReadDone], Some chunks)" by simp
    then show ?thesis using ReadDone by (intro exI[of _ "[Read ReadDone]"]) simp
  next
    case ReadFails
    with 1(2) have "y = (evs @ [Read ReadFails], None)" by simp
    then show ?thesis using ReadFails by (intro exI[of _ "[Read ReadFails]"]) simp
  qed
qed

lemma loopShape_nonempty: "loopShape key tot reader n loaded tail \<Longrightarrow> tail \<noteq> []"
  by auto

lemma loopShape_events:
  "loopShape key tot reader n loaded tail \<Longrightarrow>
     \<forall>e \<in> set tail. (\<exists>r. e = Read r) \<or> (\<exists>p. e = SetProgress key p)"
  by (induction key tot reader n loaded tail rule: loopShape.induct) auto

lemma loopShape_no_SaveAs: "loopShape key tot reader n loaded tail \<Longrightarrow> SaveAs k bytes \<notin> set tail"
  using loopShape_events[of key tot reader n loaded tail] by auto

lemma loopShape_progress_sorted:
  "0 < tot \<Longrightarrow> loopShape key tot reader n loaded tail \<Longrightarrow>
     sorted (progressValues key tail) \<and> (\<forall>v \<in> set (progressValues key tail). progressOf loaded tot \<le> v)"
proof (induction key tot reader n loaded tail rule: loopShape.induct)
  case (1 key tot reader n loaded v k p rest)
  then have IH: "sorted (progressValues key rest)"
      "\<forall>x \<in> set (progressValues key rest). progressOf (loaded + length v) tot \<le> x"
    and p: "p = progressOf (loaded + length v) tot" and k: "k = key"
    by simp_all
  have m: "progressOf loaded tot \<le> progressOf (loaded + length v) tot"
    using 1(2) by (intro progressOf_mono) simp_all
  show ?case using IH p k m by auto
qed simp_all

lemma loopShape_progress_empty:
  "loopShape key tot reader n loaded tail \<Longrightarrow> progressValues key tail = [] \<Longrightarrow> chunksOf tail = []"
  by (induction key tot reader n loaded tail rule: loopShape.induct) (auto split: if_splits)

lemma loopShape_progress_last:
  "loopShape key tot reader n loaded tail \<Longrightarrow> progressValues key tail \<noteq> [] \<Longrightarrow>
     last (progressValues key tail) = progressOf (loaded + bytesRead tail) tot"
proof (induction key tot reader n loaded tail rule: loopShape.induct)
  case (1 key tot reader n loaded v k p rest)
  then have sh: "loopShape key tot reader (Suc n) (loaded + length v) rest"
    and p: "p = progressOf (loaded + length v) tot" and k: "k = key"
    by simp_all
  show ?case
  proof (cases "progressValues key rest = []")
    case True
    have "chunksOf rest = []" using sh True by (rule loopShape_progress_empty)
    then show ?thesis using True p k by (simp add: bytesRead_def)
  next
    case False
    from 1(1)[OF sh False] have
      "last (progressValues key rest) = progressOf (loaded + length v + bytesRead rest) tot"
      by simp
    then show ?thesis using False k by (simp add: bytesRead_def add.assoc)
  qed
qed simp_all

lemma loopShape_progress_nonneg:
  "0 < tot \<Longrightarrow> loopShape key tot reader n loaded tail \<Longrightarrow> \<forall>v \<in> set (progressValues key tail). 0 \<le> v"
  using loopShape_progress_sorted[of tot key reader n loaded tail] progressOf_nonneg[of tot loaded]
  by fastforce

lemma loopShape_progress_le_100:
  assumes "0 < tot" and "loopShape key tot reader n loaded tail"
    and "int (loaded + bytesRead tail) \<le> tot"
  shows "\<forall>v \<in> set (progressValues key tail). v \<le> 100"
proof (cases "progressValues key tail = []")
  case True
  then show ?thesis by simp
next
  case False
  have s: "sorted (progressValues key tail)"
    using loopShape_progress_sorted[OF assms(1,2)] by simp
  have l: "last (progressValues key tail) \<le> 100"
    unfolding loopShape_progress_last[OF assms(2) False]
    using assms(1,3) by (rule progressOf_le_100)
  show ?thesis
  proof
    fix v assume "v \<in> set (progressValues key tail)"
    then obtain i where i: "i < length (progressValues key tail)" "v = progressValues key tail ! i"
      by (auto simp: in_set_conv_nth)
    have "progressValues key tail ! i \<le> progressValues key tail ! (length (progressValues key tail) - 1)"
      using s i(1) by (intro sorted_nth_mono) simp_all
    then show "v \<le> 100" using l i False by (simp add: last_conv_nth)
  qed
qed

lemma loopShape_chunk_then_progress_all:
  "loopShape key tot reader n loaded tail \<Longrightarrow>
     \<forall>pre v post. tail = pre @ Read (ReadChunk v) # post \<longrightarrow>
       (\<exists>post'. post = SetProgress key (progressOf (loaded + bytesRead pre + length v) tot) # post')"
proof (induction key tot reader n loaded tail rule: loopShape.induct)
  case (1 key tot reader n loaded c k p rest)
  then have sh: "loopShape key tot reader (Suc n) (loaded + length c) rest"
    and p: "p = progressOf (loaded + length c) tot" and k: "k = key"
    by simp_all
  note IH = 1(1)[OF sh]
  show ?case
  proof (intro allI impI)
    fix pre v post
    assume eq: "Read (ReadChunk c) # SetProgress k p # rest = pre @ Read (ReadChunk v) # post"
    show "\<exists>post'. post = SetProgress key (progressOf (loaded + bytesRead pre + length v) tot) # post'"
    proof (cases pre)
      case Nil
      with eq show ?thesis using p k by (auto simp: bytesRead_def)
    next
      case (Cons e pre')
      with eq have e: "e = Read (ReadChunk c)"
        and r: "SetProgress k p # rest = pre' @ Read (ReadChunk v) # post"
        by simp_all
      from r obtain pre'' where p': "pre' = SetProgress k p # pre''"
        and r': "rest = pre'' @ Read (ReadChunk v) # post"
        by (cases pre') auto
      from IH r' obtain post' where
        "post = SetProgress key (progressOf (loaded + length c + bytesRead pre'' + length v) tot) # post'"
        by blast
      then show ?thesis using Cons e p' by (simp add: bytesRead_def add.assoc)
    qed
  qed
qed (auto simp: Cons_eq_append_conv)

lemma loopShape_chunk_then_progress:
  "loopShape key tot reader n loaded tail \<Longrightarrow> tail = pre @ Read (ReadChunk v) # post \<Longrightarrow>
     \<exists>post'. post = SetProgress key (progressOf (loaded + bytesRead pre + length v) tot) # post'"
  using loopShape_chunk_then_progress_all by blast

lemma loopShape_progress_at_all:
  "loopShape key tot reader n loaded tail \<Longrightarrow>
     \<forall>pre k v post. tail = pre @ SetProgress k v # post \<longrightarrow>
       k = key \<and> v = progressOf (loaded + bytesRead pre) tot"
proof (induction key tot reader n loaded tail rule: loopShape.induct)
  case (1 key tot reader n loaded c k p rest)
  then have sh: "loopShape key tot reader (Suc n) (loaded + length c) rest"
    and p: "p = progressOf (loaded + length c) tot" and k: "k = key"
    by simp_all
  note IH = 1(1)[OF sh]
  show ?case
  proof (intro allI impI)
    fix pre k' v post
    assume eq: "Read (ReadChunk c) # SetProgress k p # rest = pre @ SetProgress k' v # post"
    then obtain pre' where pre: "pre = Read (ReadChunk c) # pre'"
      and r: "SetProgress k p # rest = pre' @ SetProgress k' v # post"
      by (cases pre) auto
    show "k' = key \<and> v = progressOf (loaded + bytesRead pre) tot"
    proof (cases pre')
      case Nil
      with r pre p k show ?thesis by (auto simp: bytesRead_def)
    next
      case (Cons e pre'')
      with r have e: "e = SetProgress k p" and r': "rest = pre'' @ SetProgress k' v # post"
        by simp_all
      from IH r' have "k' = key \<and> v = progressOf (loaded + length c + bytesRead pre'') tot"
        by blast
      then show ?thesis using pre Cons e by (simp add: bytesRead_def add.assoc)
    qed
  qed
qed (auto simp: Cons_eq_append_conv)

lemma loopShape_progress_take:
  assumes "loopShape key tot reader n loaded tail" and "v \<in> set (progressValues key (take m tail))"
  shows "\<exists>b. b \<le> loaded + bytesRead (take m tail) \<and> v = progressOf b tot"
proof -
  from progressValues_split[OF assms(2)] obtain pre post where
    s: "take m tail = pre @ SetProgress key v # post" by blast
  have "tail = pre @ SetProgress key v # (post @ drop m tail)"
    using s by (metis append_take_drop_id append.assoc append_Cons)
  with loopShape_progress_at_all[OF assms(1)] have v: "v = progressOf (loaded + bytesRead pre) tot"
    by blast
  have "bytesRead pre \<le> bytesRead (take m tail)" unfolding s by simp
  with v show ?thesis by (intro exI[of _ "loaded + bytesRead pre"]) simp
qed

lemma loopShape_reads:
  "loopShape key tot reader n loaded tail \<Longrightarrow>
     readsOf tail = map reader [n ..< n + length (readsOf tail)] \<and>
     (\<exists>e. readsOf tail = map ReadChunk (chunksOf tail) @ [e] \<and> (e = ReadDone \<or> e = ReadFails)) \<and>
     last tail = Read (last (readsOf tail)) \<and>
     Blob \<notin> set tail"
proof (induction key tot reader n loaded tail rule: loopShape.induct)
  case (1 key tot reader n loaded v k p rest)
  then have sh: "loopShape key tot reader (Suc n) (loaded + length v) rest"
    and rn: "reader n = ReadChunk v"
    by simp_all
  note IH = 1(1)[OF sh]
  have ne: "rest \<noteq> []" using sh by (rule loopShape_nonempty)
  have rne: "readsOf rest \<noteq> []" using IH by auto
  have "map reader [n ..< n + Suc (length (readsOf rest))] =
        reader n # map reader [Suc n ..< Suc n + length (readsOf rest)]"
    by (subst upt_rec) simp
  then have a: "readsOf (Read (ReadChunk v) # SetProgress k p # rest) =
        map reader [n ..< n + length (readsOf (Read (ReadChunk v) # SetProgress k p # rest))]"
    using IH rn by simp
  from IH obtain e where e: "readsOf rest = map ReadChunk (chunksOf rest) @ [e]" "e = ReadDone \<or> e = ReadFails"
    by blast
  have b: "\<exists>e. readsOf (Read (ReadChunk v) # SetProgress k p # rest) =
        map ReadChunk (chunksOf (Read (ReadChunk v) # SetProgress k p # rest)) @ [e] \<and>
        (e = ReadDone \<or> e = ReadFails)"
    using e by simp
  have c: "last (Read (ReadChunk v) # SetProgress k p # rest) =
        Read (last (readsOf (Read (ReadChunk v) # SetProgress k p # rest)))"
    using IH ne rne by simp
  have d: "Blob \<notin> set (Read (ReadChunk v) # SetProgress k p # rest)" using IH by simp
  from a b c d show ?case by blast
qed simp_all


text \<open>The loop returns on every stream that ends, with \<open>done\<close> or with an error.\<close>

lemma readLoop_returns:
  "(\<forall>v. reader (n + m) \<noteq> ReadChunk v) \<Longrightarrow> \<exists>y. readLoop key tot reader n chunks loaded evs = Some y"
proof (induction m arbitrary: n chunks loaded evs rule: less_induct)
  case (less m)
  show ?case
  proof (cases "reader n")
    case (ReadChunk v)
    with less.prems have "m \<noteq> 0" by (cases m) auto
    then obtain m' where m: "m = Suc m'" by (cases m) auto
    have "\<forall>v. reader (Suc n + m') \<noteq> ReadChunk v" using less.prems m by simp
    from less.IH[OF _ this, of "chunks @ [v]" "loaded + length v"
        "evs @ [Read (ReadChunk v), SetProgress key (progressOf (loaded + length v) tot)]"] m
    show ?thesis by (subst readLoop.simps) (simp add: ReadChunk)
  next
    case ReadDone
    then show ?thesis by (subst readLoop.simps) simp
  next
    case ReadFails
    then show ?thesis by (subst readLoop.simps) simp
  qed
qed

lemma readAll_returns:
  "(\<forall>v. reader (n + m) \<noteq> ReadChunk v) \<Longrightarrow> \<exists>y. readAll reader n acc = Some y"
proof (induction m arbitrary: n acc rule: less_induct)
  case (less m)
  show ?case
  proof (cases "reader n")
    case (ReadChunk v)
    with less.prems have "m \<noteq> 0" by (cases m) auto
    then obtain m' where m: "m = Suc m'" by (cases m) auto
    have "\<forall>v. reader (Suc n + m') \<noteq> ReadChunk v" using less.prems m by simp
    from less.IH[OF _ this, of "acc @ v"] m
    show ?thesis by (subst readAll.simps) (simp add: ReadChunk)
  next
    case ReadDone
    then show ?thesis by (subst readAll.simps) simp
  next
    case ReadFails
    then show ?thesis by (subst readAll.simps) simp
  qed
qed


subsection \<open>The paths of \<open>handleDownload\<close>\<close>

lemma handleDownload_guard: "k \<in> downloadingFiles st \<Longrightarrow> handleDownload env st k = Some []"
  by (simp add: handleDownload_def)

lemma handleDownload_ends:
  "k \<notin> downloadingFiles st \<Longrightarrow> handleDownload env st k = Some evs \<Longrightarrow>
     \<exists>pre. evs = pre @ [RemoveDownloading k, RemoveProgress k]"
  by (auto simp: handleDownload_def split: option.splits prod.splits outcome.splits)

lemma responseOf_Some:
  "responseOf env k = Some r \<Longrightarrow>
     \<exists>url. generateDownloadUrl env k = ([SignUrl k 3600], url) \<and> url \<noteq> ''#'' \<and> fetch env url = Some r"
  by (auto simp: responseOf_def generateDownloadUrl_def split: if_splits option.splits)

lemma handleDownload_ok:
  assumes "k \<notin> downloadingFiles st" "responseOf env k = Some r" "ok r"
    and "handleDownload env st k = Some evs"
  shows "\<exists>url bevs out. receiveBody k r = Some (bevs, out) \<and>
     evs = [AddDownloading k, SetProgress k 0, SignUrl k 3600, Fetch url] @ bevs @
           (case out of Thrown \<Rightarrow> [Alert k] | Returned \<Rightarrow> []) @
           [RemoveDownloading k, RemoveProgress k]"
proof -
  from responseOf_Some[OF assms(2)] obtain url where
    u: "generateDownloadUrl env k = ([SignUrl k 3600], url)" "url \<noteq> ''#''" "fetch env url = Some r"
    by blast
  from assms(4) obtain tevs out where t: "tryBlock env k = Some (tevs, out)"
    and e: "evs = tevs @ (case out of Thrown \<Rightarrow> [Alert k] | Returned \<Rightarrow> []) @
           [RemoveDownloading k, RemoveProgress k]"
    using assms(1) by (auto simp: handleDownload_def split: option.splits)
  from t obtain bevs where "receiveBody k r = Some (bevs, out)"
    and "tevs = [AddDownloading k, SetProgress k 0, SignUrl k 3600, Fetch url] @ bevs"
    using u assms(3) by (auto simp: tryBlock_def split: option.splits)
  with e show ?thesis by auto
qed

lemma handleDownload_no_response:
  assumes "k \<notin> downloadingFiles st"
    and "responseOf env k = None \<or> (\<exists>r. responseOf env k = Some r \<and> \<not> ok r)"
  shows "\<exists>mid. handleDownload env st k =
           Some ([AddDownloading k, SetProgress k 0] @ mid @ [RemoveDownloading k, RemoveProgress k]) \<and>
         progressValues k mid = [] \<and> readsOf mid = [] \<and> chunksOf mid = []"
  using assms
  by (auto simp: handleDownload_def tryBlock_def responseOf_def generateDownloadUrl_def
      split: option.splits if_splits)

lemma streamBody_shape:
  assumes "streamBody k tot reader = Some (bevs, out)"
  shows "\<exists>tail. loopShape k tot reader 0 0 tail \<and>
           bevs = tail @ (if last tail = Read ReadDone then [SaveAs k (concat (chunksOf tail))] else []) \<and>
           out = (if last tail = Read ReadDone then Returned else Thrown)"
proof -
  from assms obtain y where y: "readLoop k tot reader 0 [] 0 [] = Some y"
    by (auto simp: streamBody_def split: option.splits)
  from readLoop_shape[OF y] obtain tail where
    t: "fst y = tail" "loopShape k tot reader 0 0 tail"
       "snd y = (if last tail = Read ReadDone then Some (chunksOf tail) else None)"
    by auto
  have "y = (tail, if last tail = Read ReadDone then Some (chunksOf tail) else None)"
    using t(1,3) by (cases y) simp
  with assms y t(2) show ?thesis
    by (auto simp: streamBody_def split: if_splits)
qed

lemma bufferBody_shape:
  assumes "bufferBody k r = Some (bevs, out)"
  shows "(bevs = [Blob] \<and> out = Thrown \<and> blob r = Some None) \<or>
         (\<exists>bytes. bevs = [Blob, SaveAs k bytes] \<and> out = Returned \<and> blob r = Some (Some bytes))"
  using assms by (auto simp: bufferBody_def split: option.splits)

lemma receiveBody_stream:
  "body r = Some reader \<Longrightarrow> totalOf (contentLength r) = Some tot \<Longrightarrow> 0 < tot \<Longrightarrow>
     receiveBody k r = streamBody k tot reader"
  by (simp add: receiveBody_def)

lemma receiveBody_buffer:
  "body r = None \<or> totalOf (contentLength r) = None \<or> (\<exists>tot \<le> 0. totalOf (contentLength r) = Some tot) \<Longrightarrow>
     receiveBody k r = bufferBody k r"
  by (auto simp: receiveBody_def split: option.splits)

lemma handleDownload_stream:
  assumes "k \<notin> downloadingFiles st" "responseOf env k = Some r" "ok r"
    and "body r = Some reader" "totalOf (contentLength r) = Some tot" "0 < tot"
    and "handleDownload env st k = Some evs"
  shows "\<exists>url tail. loopShape k tot reader 0 0 tail \<and>
     evs = [AddDownloading k, SetProgress k 0, SignUrl k 3600, Fetch url] @ tail @
           (if last tail = Read ReadDone then [SaveAs k (concat (chunksOf tail))] else [Alert k]) @
           [RemoveDownloading k, RemoveProgress k]"
proof -
  from handleDownload_ok[OF assms(1,2,3,7)] obtain url bevs out where
    rb: "receiveBody k r = Some (bevs, out)"
    and e: "evs = [AddDownloading k, SetProgress k 0, SignUrl k 3600, Fetch url] @ bevs @
           (case out of Thrown \<Rightarrow> [Alert k] | Returned \<Rightarrow> []) @
           [RemoveDownloading k, RemoveProgress k]"
    by blast
  from rb have "streamBody k tot reader = Some (bevs, out)"
    by (simp add: receiveBody_stream[OF assms(4,5,6)])
  from streamBody_shape[OF this] obtain tail where
    "loopShape k tot reader 0 0 tail"
    "bevs = tail @ (if last tail = Read ReadDone then [SaveAs k (concat (chunksOf tail))] else [])"
    "out = (if last tail = Read ReadDone then Returned else Thrown)"
    by blast
  with e show ?thesis by (intro exI[of _ url] exI[of _ tail]) simp
qed

lemma handleDownload_buffer:
  assumes "k \<notin> downloadingFiles st" "responseOf env k = Some r" "ok r"
    and "body r = None \<or> totalOf (contentLength r) = None \<or> (\<exists>tot \<le> 0. totalOf (contentLength r) = Some tot)"
    and "handleDownload env st k = Some evs"
  shows "\<exists>url. (blob r = Some None \<and>
            evs = [AddDownloading k, SetProgress k 0, SignUrl k 3600, Fetch url, Blob, Alert k,
                   RemoveDownloading k, RemoveProgress k]) \<or>
          (\<exists>bytes. blob r = Some (Some bytes) \<and>
            evs = [AddDownloading k, SetProgress k 0, SignUrl k 3600, Fetch url, Blob, SaveAs k bytes,
                   RemoveDownloading k, RemoveProgress k])"
proof -
  from handleDownload_ok[OF assms(1,2,3,5)] obtain url bevs out where
    rb: "receiveBody k r = Some (bevs, out)"
    and e: "evs = [AddDownloading k, SetProgress k 0, SignUrl k 3600, Fetch url] @ bevs @
           (case out of Thrown \<Rightarrow> [Alert k] | Returned \<Rightarrow> []) @
           [RemoveDownloading k, RemoveProgress k]"
    by blast
  from rb have "bufferBody k r = Some (bevs, out)"
    by (simp add: receiveBody_buffer[OF assms(4)])
  from bufferBody_shape[OF this] e show ?thesis by (intro exI[of _ url]) auto
qed

lemma stream_or_buffer:
  "(\<exists>reader tot. body r = Some reader \<and> totalOf (contentLength r) = Some tot \<and> 0 < tot) \<or>
   (body r = None \<or> totalOf (contentLength r) = None \<or> (\<exists>tot \<le> 0. totalOf (contentLength r) = Some tot))"
  by (cases "body r"; cases "totalOf (contentLength r)") (auto simp: not_less)

lemma handleDownload_progress_take:
  assumes "handleDownload env st k = Some evs" and "v \<in> set (progressValues k (take n evs))"
  shows "v = 0 \<or> (\<exists>r tot b. responseOf env k = Some r \<and> totalOf (contentLength r) = Some tot \<and>
           0 < tot \<and> b \<le> bytesRead (take n evs) \<and> v = progressOf b tot)"
proof (cases "k \<in> downloadingFiles st")
  case True
  with assms show ?thesis by (simp add: handleDownload_guard)
next
  case False
  have sub: "v \<in> set (progressValues k evs)" using assms(2) progressValues_take by blast
  show ?thesis
  proof (cases "responseOf env k = None \<or> (\<exists>r. responseOf env k = Some r \<and> \<not> ok r)")
    case True
    from handleDownload_no_response[OF False True] assms(1) sub show ?thesis by auto
  next
    case nr: False
    then obtain r where r: "responseOf env k = Some r" "ok r" by auto
    from stream_or_buffer[of r] show ?thesis
    proof
      assume "\<exists>reader tot. body r = Some reader \<and> totalOf (contentLength r) = Some tot \<and> 0 < tot"
      then obtain reader tot where
        st: "body r = Some reader" "totalOf (contentLength r) = Some tot" "0 < tot" by blast
      from handleDownload_stream[OF False r st assms(1)] obtain url tail where
        sh: "loopShape k tot reader 0 0 tail"
        and e: "evs = [AddDownloading k, SetProgress k 0, SignUrl k 3600, Fetch url] @ (tail @
           (if last tail = Read ReadDone then [SaveAs k (concat (chunksOf tail))] else [Alert k]) @
           [RemoveDownloading k, RemoveProgress k])"
        by auto
      define A where "A = [AddDownloading k, SetProgress k 0, SignUrl k 3600, Fetch url]"
      define B where "B = (if last tail = Read ReadDone then [SaveAs k (concat (chunksOf tail))]
           else [Alert k]) @ [RemoveDownloading k, RemoveProgress k]"
      define m where "m = n - length A"
      have e': "evs = A @ tail @ B" unfolding A_def B_def using e by simp
      have t: "take n evs = take n A @ take m tail @ take (m - length tail) B"
        unfolding e' m_def by simp
      have pA: "set (progressValues k (take n A)) \<subseteq> {0}"
        using progressValues_take[of k n A] unfolding A_def by simp
      have pB: "progressValues k (take (m - length tail) B) = []"
      proof -
        have "progressValues k B = []" unfolding B_def by simp
        moreover have "set (progressValues k (take (m - length tail) B)) \<subseteq> set (progressValues k B)"
          by (rule progressValues_take)
        ultimately show ?thesis by simp
      qed
      from assms(2) have "v = 0 \<or> v \<in> set (progressValues k (take m tail))"
        unfolding t using pA pB by auto
      then show ?thesis
      proof
        assume "v = 0" then show ?thesis by simp
      next
        assume "v \<in> set (progressValues k (take m tail))"
        from loopShape_progress_take[OF sh this] obtain b where
          b: "b \<le> bytesRead (take m tail)" "v = progressOf b tot" by auto
        have "bytesRead (take m tail) \<le> bytesRead (take n evs)"
          unfolding t by simp
        with b r st show ?thesis by (intro disjI2 exI[of _ r] exI[of _ tot] exI[of _ b]) simp
      qed
    next
      assume "body r = None \<or> totalOf (contentLength r) = None \<or>
              (\<exists>tot\<le>0. totalOf (contentLength r) = Some tot)"
      from handleDownload_buffer[OF False r this assms(1)] sub show ?thesis by auto
    qed
  qed
qed


text \<open>
  A call returns unless the body stream never ends. In particular it returns when signing
  fails, when the response is not a success and when a read fails.
\<close>

lemma handleDownload_returns:
  assumes "\<forall>r reader. responseOf env k = Some r \<and> body r = Some reader \<longrightarrow>
             (\<exists>m. \<forall>v. reader m \<noteq> ReadChunk v)"
  shows "\<exists>evs. handleDownload env st k = Some evs"
proof (cases "k \<in> downloadingFiles st")
  case True
  then show ?thesis by (simp add: handleDownload_def)
next
  case False
  show ?thesis
  proof (cases "responseOf env k")
    case None
    with handleDownload_no_response[OF False] show ?thesis by blast
  next
    case (Some r)
    show ?thesis
    proof (cases "ok r")
      case False
      with handleDownload_no_response[OF \<open>k \<notin> downloadingFiles st\<close>] Some show ?thesis by blast
    next
      case True
      have rb: "\<exists>y. receiveBody k r = Some y"
      proof (cases "body r")
        case None
        then show ?thesis by (simp add: receiveBody_def bufferBody_def blob_def)
      next
        case (Some reader)
        with assms \<open>responseOf env k = Some r\<close> obtain m where m: "\<forall>v. reader (0 + m) \<noteq> ReadChunk v"
          by auto
        from readLoop_returns[of reader 0 m, OF m] have a: "\<And>tot. \<exists>y. streamBody k tot reader = Some y"
          by (fastforce simp: streamBody_def split: option.splits prod.splits)
        from readAll_returns[of reader 0 m, OF m] have b: "\<exists>y. bufferBody k r = Some y"
          by (fastforce simp: bufferBody_def blob_def Some split: option.splits)
        from a b show ?thesis
          by (auto simp: receiveBody_def Some split: option.splits)
      qed
      from responseOf_Some[OF Some] obtain url where
        u: "generateDownloadUrl env k = ([SignUrl k 3600], url)" "url \<noteq> ''#''" "fetch env url = Some r"
        by blast
      from rb u True False show ?thesis
        by (auto simp: handleDownload_def tryBlock_def split: option.splits)
    qed
  qed
qed


lemma handleDownload_sign_failure:
  assumes "k \<notin> downloadingFiles st" and "s3Client env" and "getSignedUrl env k = None"
  shows "handleDownload env st k =
           Some [AddDownloading k, SetProgress k 0, SignUrl k 3600,
                 RemoveDownloading k, RemoveProgress k]"
  using assms by (simp add: handleDownload_def tryBlock_def generateDownloadUrl_def)

lemma handleDownload_http_failure:
  assumes "k \<notin> downloadingFiles st" and "s3Client env" and "getSignedUrl env k = Some url"
    and "url \<noteq> ''#''" and "fetch env url = Some r" and "\<not> ok r"
  shows "handleDownload env st k =
           Some [AddDownloading k, SetProgress k 0, SignUrl k 3600, Fetch url, Alert k,
                 RemoveDownloading k, RemoveProgress k]"
  using assms by (simp add: handleDownload_def tryBlock_def generateDownloadUrl_def)

subsection \<open>Examples\<close>

lemma example_response:
  "responseOf (exampleEnv header stream) ''f'' =
     Some \<lparr>ok = True, status = 200, statusText = ''OK'', contentLength = header, body = stream\<rparr>"
  by (simp add: responseOf_def generateDownloadUrl_def exampleEnv_def)

lemma totalOf_3: "totalOf (Some ''3'') = Some 3"
  by code_simp

lemma example_complete:
  "handleDownload (exampleEnv (Some ''3'') (Some (streamOf [ReadChunk [1, 2], ReadChunk [3], ReadDone])))
       idle ''f'' =
     Some [AddDownloading ''f'', SetProgress ''f'' 0, SignUrl ''f'' 3600,
           Fetch ''https://sos.example/f'', Read (ReadChunk [1, 2]), SetProgress ''f'' 67,
           Read (ReadChunk [3]), SetProgress ''f'' 100, Read ReadDone, SaveAs ''f'' [1, 2, 3],
           RemoveDownloading ''f'', RemoveProgress ''f'']"
  by code_simp

lemma example_buffered:
  "handleDownload (exampleEnv None (Some (streamOf [ReadChunk [1, 2], ReadChunk [3], ReadDone])))
       idle ''f'' =
     Some [AddDownloading ''f'', SetProgress ''f'' 0, SignUrl ''f'' 3600,
           Fetch ''https://sos.example/f'', Blob, SaveAs ''f'' [1, 2, 3],
           RemoveDownloading ''f'', RemoveProgress ''f'']"
  by code_simp

lemma example_stream_error:
  "handleDownload (exampleEnv (Some ''4'') (Some (streamOf [ReadChunk [1, 2], ReadFails]))) idle ''f'' =
     Some [AddDownloading ''f'', SetProgress ''f'' 0, SignUrl ''f'' 3600,
           Fetch ''https://sos.example/f'', Read (ReadChunk [1, 2]), SetProgress ''f'' 50,
           Read ReadFails, Alert ''f'', RemoveDownloading ''f'', RemoveProgress ''f'']"
  by code_simp


section \<open>Properties of the downloader\<close>

text \<open>
  Claim C2, as amended. For every download that receives a successful response: when the
  response has a body and its declared length parses to a positive number, the body is read
  chunk after chunk, in the order of the stream, until the first read that is not a chunk
  (\<open>done\<close> or an error); no \<open>blob()\<close> is requested; every chunk read is followed at once by
  the update of the key's progress to \<open>Math.round(bytesReadSoFar / totalBytes * 100)\<close>,
  computed in double precision; and the file saved is the concatenation of the chunks.
  Otherwise (no body, no length declared, a length that is not a positive number) nothing is
  read chunk by chunk, the progress stays at its initial 0, and the body is buffered by one
  \<open>blob()\<close>, whose bytes are the file saved.
\<close>

theorem download_streams_or_buffers:
  assumes "k \<notin> downloadingFiles st" and "responseOf env k = Some r" and "ok r"
    and "handleDownload env st k = Some evs"
  shows "(\<forall>reader tot. body r = Some reader \<and> totalOf (contentLength r) = Some tot \<and> 0 < tot \<longrightarrow>
            Blob \<notin> set evs \<and>
            readsOf evs = map reader [0 ..< length (readsOf evs)] \<and>
            (\<exists>e. readsOf evs = map ReadChunk (chunksOf evs) @ [e] \<and> (e = ReadDone \<or> e = ReadFails)) \<and>
            (\<forall>pre v post. evs = pre @ Read (ReadChunk v) # post \<longrightarrow>
               (\<exists>post'. post = SetProgress k (progressOf (bytesRead pre + length v) tot) # post')) \<and>
            (\<forall>bytes. SaveAs k bytes \<in> set evs \<longrightarrow> bytes = concat (chunksOf evs))) \<and>
         (body r = None \<or> totalOf (contentLength r) = None \<or>
            (\<exists>tot \<le> 0. totalOf (contentLength r) = Some tot) \<longrightarrow>
            readsOf evs = [] \<and> progressValues k evs = [0] \<and> filter (\<lambda>e. e = Blob) evs = [Blob] \<and>
            (\<forall>bytes. SaveAs k bytes \<in> set evs \<longrightarrow> blob r = Some (Some bytes)))"
proof (intro conjI allI impI)
  fix reader tot
  assume "body r = Some reader \<and> totalOf (contentLength r) = Some tot \<and> 0 < tot"
  then have st: "body r = Some reader" "totalOf (contentLength r) = Some tot" "0 < tot" by simp_all
  from handleDownload_stream[OF assms(1-3) st assms(4)] obtain url tail where
    sh: "loopShape k tot reader 0 0 tail"
    and e0: "evs = [AddDownloading k, SetProgress k 0, SignUrl k 3600, Fetch url] @ tail @
           (if last tail = Read ReadDone then [SaveAs k (concat (chunksOf tail))] else [Alert k]) @
           [RemoveDownloading k, RemoveProgress k]"
    by blast
  define A where "A = [AddDownloading k, SetProgress k 0, SignUrl k 3600, Fetch url]"
  define B where "B = (if last tail = Read ReadDone then [SaveAs k (concat (chunksOf tail))]
           else [Alert k]) @ [RemoveDownloading k, RemoveProgress k]"
  have e: "evs = A @ tail @ B" unfolding A_def B_def using e0 by simp
  have rA: "readsOf A = []" "chunksOf A = []" "Blob \<notin> set A" unfolding A_def by simp_all
  have rB: "readsOf B = []" "chunksOf B = []" "Blob \<notin> set B" unfolding B_def by simp_all
  have nrA: "Read x \<notin> set A" for x unfolding A_def by simp
  have nrB: "Read x \<notin> set B" for x unfolding B_def by simp
  note R = loopShape_reads[OF sh]
  show "Blob \<notin> set evs" unfolding e using rA(3) rB(3) R by simp
  show "readsOf evs = map reader [0 ..< length (readsOf evs)]"
    unfolding e using rA(1) rB(1) R by simp
  show "\<exists>e. readsOf evs = map ReadChunk (chunksOf evs) @ [e] \<and> (e = ReadDone \<or> e = ReadFails)"
    unfolding e using rA rB R by simp
  show "\<exists>post'. post = SetProgress k (progressOf (bytesRead pre + length v) tot) # post'"
    if "evs = pre @ Read (ReadChunk v) # post" for pre v post
  proof -
    from that have "A @ tail @ B = pre @ Read (ReadChunk v) # post" unfolding e by simp
    from split_middle[OF this nrA nrB] obtain pre' post' where
      p: "pre = A @ pre'" "tail = pre' @ Read (ReadChunk v) # post'" "post = post' @ B"
      by blast
    from loopShape_chunk_then_progress[OF sh p(2)] obtain post'' where
      "post' = SetProgress k (progressOf (0 + bytesRead pre' + length v) tot) # post''"
      by blast
    moreover have "bytesRead pre = bytesRead pre'" unfolding p(1) using rA(2) by (simp add: bytesRead_def)
    ultimately show ?thesis using p(3) by simp
  qed
  show "bytes = concat (chunksOf evs)" if "SaveAs k bytes \<in> set evs" for bytes
  proof -
    have "SaveAs k bytes \<notin> set tail" using loopShape_no_SaveAs[OF sh] .
    moreover have "SaveAs k bytes \<notin> set A" unfolding A_def by simp
    ultimately have "SaveAs k bytes \<in> set B" using that unfolding e by simp
    then have "bytes = concat (chunksOf tail)" unfolding B_def by (auto split: if_splits)
    then show ?thesis unfolding e using rA(2) rB(2) by simp
  qed
next
  assume b: "body r = None \<or> totalOf (contentLength r) = None \<or>
            (\<exists>tot \<le> 0. totalOf (contentLength r) = Some tot)"
  from handleDownload_buffer[OF assms(1-3) b assms(4)]
  show "readsOf evs = []" "progressValues k evs = [0]" "filter (\<lambda>e. e = Blob) evs = [Blob]"
    by auto
  from handleDownload_buffer[OF assms(1-3) b assms(4)]
  show "\<And>bytes. SaveAs k bytes \<in> set evs \<Longrightarrow> blob r = Some (Some bytes)"
    by auto
qed

theorem download_streams_or_buffers_witness:
  "''f'' \<notin> downloadingFiles idle \<and>
   handleDownload (exampleEnv (Some ''3'') (Some (streamOf [ReadChunk [1, 2], ReadChunk [3], ReadDone])))
       idle ''f'' =
     Some [AddDownloading ''f'', SetProgress ''f'' 0, SignUrl ''f'' 3600,
           Fetch ''https://sos.example/f'', Read (ReadChunk [1, 2]), SetProgress ''f'' 67,
           Read (ReadChunk [3]), SetProgress ''f'' 100, Read ReadDone, SaveAs ''f'' [1, 2, 3],
           RemoveDownloading ''f'', RemoveProgress ''f''] \<and>
   totalOf (Some ''3'') = Some 3 \<and>
   Blob \<notin> set [AddDownloading ''f'', SetProgress ''f'' 0, SignUrl ''f'' 3600,
           Fetch ''https://sos.example/f'', Read (ReadChunk [1, 2]), SetProgress ''f'' 67,
           Read (ReadChunk [3]), SetProgress ''f'' 100, Read ReadDone, SaveAs ''f'' [1, 2, 3],
           RemoveDownloading ''f'', RemoveProgress ''f''] \<and>
   readsOf [AddDownloading ''f'', SetProgress ''f'' 0, SignUrl ''f'' 3600,
           Fetch ''https://sos.example/f'', Read (ReadChunk [1, 2]), SetProgress ''f'' 67,
           Read (ReadChunk [3]), SetProgress ''f'' 100, Read ReadDone, SaveAs ''f'' [1, 2, 3],
           RemoveDownloading ''f'', RemoveProgress ''f''] =
     [ReadChunk [1, 2], ReadChunk [3], ReadDone] \<and>
   handleDownload (exampleEnv None (Some (streamOf [ReadChunk [1, 2], ReadChunk [3], ReadDone])))
       idle ''f'' =
     Some [AddDownloading ''f'', SetProgress ''f'' 0, SignUrl ''f'' 3600,
           Fetch ''https://sos.example/f'', Blob, SaveAs ''f'' [1, 2, 3],
           RemoveDownloading ''f'', RemoveProgress ''f''] \<and>
   totalOf None = Some 0 \<and>
   progressValues ''f'' [AddDownloading ''f'', SetProgress ''f'' 0, SignUrl ''f'' 3600,
           Fetch ''https://sos.example/f'', Blob, SaveAs ''f'' [1, 2, 3],
           RemoveDownloading ''f'', RemoveProgress ''f''] = [0]"
proof -
  have h: "''f'' \<notin> downloadingFiles idle" by (simp add: idle_def)
  have t0: "totalOf None = Some 0" by (simp add: totalOf_def)
  from download_streams_or_buffers[OF h example_response _ example_complete]
       download_streams_or_buffers[OF h example_response _ example_buffered]
  show ?thesis using h example_complete example_buffered totalOf_3 t0 by simp
qed


text \<open>
  Claim C2 as it is stated gives the progress as the floor of the percentage. With 2 of 3
  bytes read the code records 67; the floor is 66.
\<close>

theorem progress_rounds_counterexample:
  "handleDownload (exampleEnv (Some ''3'') (Some (streamOf [ReadChunk [1, 2], ReadChunk [3], ReadDone])))
       idle ''f'' =
     Some [AddDownloading ''f'', SetProgress ''f'' 0, SignUrl ''f'' 3600,
           Fetch ''https://sos.example/f'', Read (ReadChunk [1, 2]), SetProgress ''f'' 67,
           Read (ReadChunk [3]), SetProgress ''f'' 100, Read ReadDone, SaveAs ''f'' [1, 2, 3],
           RemoveDownloading ''f'', RemoveProgress ''f''] \<and>
   \<lfloor>(2 :: rat) / 3 * 100\<rfloor> = 66"
proof -
  have "\<lfloor>(2 :: rat) / 3 * 100\<rfloor> = 66" by code_simp
  moreover have "handleDownload
       (exampleEnv (Some ''3'') (Some (streamOf [ReadChunk [1, 2], ReadChunk [3], ReadDone])))
       idle ''f'' =
     Some [AddDownloading ''f'', SetProgress ''f'' 0, SignUrl ''f'' 3600,
           Fetch ''https://sos.example/f'', Read (ReadChunk [1, 2]), SetProgress ''f'' 67,
           Read (ReadChunk [3]), SetProgress ''f'' 100, Read ReadDone, SaveAs ''f'' [1, 2, 3],
           RemoveDownloading ''f'', RemoveProgress ''f'']"
    by code_simp
  ultimately show ?thesis by blast
qed


text \<open>
  Claim C5. A call for a key that is in \<open>downloadingFiles\<close> returns with no effect at all:
  no signing, no fetch, no state update; the state after the call is the state before it.
\<close>

theorem download_guard_noop:
  assumes "k \<in> downloadingFiles st"
  shows "handleDownload env st k = Some [] \<and>
         map_option (runEvents st) (handleDownload env st k) = Some st"
  using assms by (simp add: handleDownload_guard)

theorem download_guard_noop_witness:
  "''f'' \<in> downloadingFiles \<lparr>downloadingFiles = {''f''}, downloadProgress = [''f'' \<mapsto> 40]\<rparr> \<and>
   handleDownload (exampleEnv (Some ''3'') (Some (streamOf [ReadChunk [1, 2, 3], ReadDone])))
     \<lparr>downloadingFiles = {''f''}, downloadProgress = [''f'' \<mapsto> 40]\<rparr> ''f'' = Some [] \<and>
   map_option (runEvents \<lparr>downloadingFiles = {''f''}, downloadProgress = [''f'' \<mapsto> 40]\<rparr>)
     (handleDownload (exampleEnv (Some ''3'') (Some (streamOf [ReadChunk [1, 2, 3], ReadDone])))
        \<lparr>downloadingFiles = {''f''}, downloadProgress = [''f'' \<mapsto> 40]\<rparr> ''f'') =
   Some \<lparr>downloadingFiles = {''f''}, downloadProgress = [''f'' \<mapsto> 40]\<rparr>"
proof -
  have h: "''f'' \<in> downloadingFiles \<lparr>downloadingFiles = {''f''}, downloadProgress = [''f'' \<mapsto> 40]\<rparr>"
    by simp
  show ?thesis
    using h download_guard_noop[OF h,
        of "exampleEnv (Some ''3'') (Some (streamOf [ReadChunk [1, 2, 3], ReadDone]))"]
    by blast
qed


text \<open>
  Claim C6. After every call that starts a download and returns, on success and on each
  failure (signing, HTTP status, rejected fetch, error in the middle of the stream), the key
  is in neither \<open>downloadingFiles\<close> nor \<open>downloadProgress\<close>.
\<close>

theorem download_cleanup:
  assumes "k \<notin> downloadingFiles st" and "handleDownload env st k = Some evs"
  shows "k \<notin> downloadingFiles (runEvents st evs) \<and> downloadProgress (runEvents st evs) k = None"
proof -
  from handleDownload_ends[OF assms] obtain pre where
    "evs = pre @ [RemoveDownloading k, RemoveProgress k]" by blast
  then show ?thesis using runEvents_cleanup[of k st pre] by simp
qed

theorem download_cleanup_witness:
  "''f'' \<notin> downloadingFiles idle \<and>
   handleDownload (exampleEnv (Some ''4'') (Some (streamOf [ReadChunk [1, 2], ReadFails]))) idle ''f'' =
     Some [AddDownloading ''f'', SetProgress ''f'' 0, SignUrl ''f'' 3600,
           Fetch ''https://sos.example/f'', Read (ReadChunk [1, 2]), SetProgress ''f'' 50,
           Read ReadFails, Alert ''f'', RemoveDownloading ''f'', RemoveProgress ''f''] \<and>
   ''f'' \<notin> downloadingFiles (runEvents idle
          [AddDownloading ''f'', SetProgress ''f'' 0, SignUrl ''f'' 3600,
           Fetch ''https://sos.example/f'', Read (ReadChunk [1, 2]), SetProgress ''f'' 50,
           Read ReadFails, Alert ''f'', RemoveDownloading ''f'', RemoveProgress ''f'']) \<and>
   downloadProgress (runEvents idle
          [AddDownloading ''f'', SetProgress ''f'' 0, SignUrl ''f'' 3600,
           Fetch ''https://sos.example/f'', Read (ReadChunk [1, 2]), SetProgress ''f'' 50,
           Read ReadFails, Alert ''f'', RemoveDownloading ''f'', RemoveProgress ''f'']) ''f'' = None"
proof -
  have h: "''f'' \<notin> downloadingFiles idle" by (simp add: idle_def)
  show ?thesis
    using h example_stream_error download_cleanup[OF h example_stream_error]
    by blast
qed


text \<open>
  Claim C7, as amended. For every download with a declared positive length that completes
  successfully, the progress values recorded for its key are non-decreasing; the last one is
  100 when the stream has delivered exactly the declared number of bytes.
\<close>

theorem progress_monotone:
  assumes "k \<notin> downloadingFiles st" and "responseOf env k = Some r" and "ok r"
    and "body r = Some reader" and "totalOf (contentLength r) = Some tot" and "0 < tot"
    and "handleDownload env st k = Some evs" and "SaveAs k bytes \<in> set evs"
  shows "sorted (progressValues k evs) \<and>
         (int (length bytes) = tot \<longrightarrow> last (progressValues k evs) = 100)"
proof -
  from handleDownload_stream[OF assms(1-7)] obtain url tail where
    sh: "loopShape k tot reader 0 0 tail"
    and e: "evs = [AddDownloading k, SetProgress k 0, SignUrl k 3600, Fetch url] @ tail @
           (if last tail = Read ReadDone then [SaveAs k (concat (chunksOf tail))] else [Alert k]) @
           [RemoveDownloading k, RemoveProgress k]"
    by blast
  have pv: "progressValues k evs = 0 # progressValues k tail"
    unfolding e by simp
  have s: "sorted (progressValues k tail)" and nn: "\<forall>v \<in> set (progressValues k tail). 0 \<le> v"
    using loopShape_progress_sorted[OF assms(6) sh] loopShape_progress_nonneg[OF assms(6) sh]
    by simp_all
  have 1: "sorted (progressValues k evs)" unfolding pv using s nn by simp
  have b: "bytes = concat (chunksOf tail)"
    using assms(8) loopShape_no_SaveAs[OF sh, of k bytes] unfolding e by (auto split: if_splits)
  have 2: "last (progressValues k evs) = 100" if len: "int (length bytes) = tot"
  proof -
    have br: "bytesRead tail = nat tot" using len b by (simp add: bytesRead_def)
    have "chunksOf tail \<noteq> []" using len b assms(6) by auto
    then have ne: "progressValues k tail \<noteq> []" using loopShape_progress_empty[OF sh] by blast
    from loopShape_progress_last[OF sh ne] br have "last (progressValues k tail) = progressOf (nat tot) tot"
      by simp
    then show ?thesis unfolding pv using ne assms(6) by (simp add: progressOf_full)
  qed
  from 1 2 show ?thesis by blast
qed

theorem progress_monotone_witness:
  "''f'' \<notin> downloadingFiles idle \<and>
   handleDownload (exampleEnv (Some ''3'') (Some (streamOf [ReadChunk [1, 2], ReadChunk [3], ReadDone])))
       idle ''f'' =
     Some [AddDownloading ''f'', SetProgress ''f'' 0, SignUrl ''f'' 3600,
           Fetch ''https://sos.example/f'', Read (ReadChunk [1, 2]), SetProgress ''f'' 67,
           Read (ReadChunk [3]), SetProgress ''f'' 100, Read ReadDone, SaveAs ''f'' [1, 2, 3],
           RemoveDownloading ''f'', RemoveProgress ''f''] \<and>
   sorted (progressValues ''f''
          [AddDownloading ''f'', SetProgress ''f'' 0, SignUrl ''f'' 3600,
           Fetch ''https://sos.example/f'', Read (ReadChunk [1, 2]), SetProgress ''f'' 67,
           Read (ReadChunk [3]), SetProgress ''f'' 100, Read ReadDone, SaveAs ''f'' [1, 2, 3],
           RemoveDownloading ''f'', RemoveProgress ''f'']) \<and>
   last (progressValues ''f''
          [AddDownloading ''f'', SetProgress ''f'' 0, SignUrl ''f'' 3600,
           Fetch ''https://sos.example/f'', Read (ReadChunk [1, 2]), SetProgress ''f'' 67,
           Read (ReadChunk [3]), SetProgress ''f'' 100, Read ReadDone, SaveAs ''f'' [1, 2, 3],
           RemoveDownloading ''f'', RemoveProgress ''f'']) = 100"
proof -
  have h: "''f'' \<notin> downloadingFiles idle" by (simp add: idle_def)
  have s: "SaveAs ''f'' [1, 2, 3] \<in> set
          [AddDownloading ''f'', SetProgress ''f'' 0, SignUrl ''f'' 3600,
           Fetch ''https://sos.example/f'', Read (ReadChunk [1, 2]), SetProgress ''f'' 67,
           Read (ReadChunk [3]), SetProgress ''f'' 100, Read ReadDone, SaveAs ''f'' [1, 2, 3],
           RemoveDownloading ''f'', RemoveProgress ''f'']"
    by simp
  have l: "int (length [1, 2, 3 :: byte]) = 3" by simp
  from progress_monotone[OF h example_response _ _ _ _ example_complete s,
      of "streamOf [ReadChunk [1, 2], ReadChunk [3], ReadDone]" 3] totalOf_3 l
  show ?thesis using h example_complete by simp
qed


text \<open>
  Claim C7 as it is stated ends every successful download at 100. The code compares nothing
  with the declared length: a response that declares 4 bytes and whose stream delivers 8 (as
  with a compressed transfer, where the header counts the encoded bytes and the stream
  yields the decoded ones) completes successfully with 200 as the last value.
\<close>

theorem progress_final_counterexample:
  "handleDownload
       (exampleEnv (Some ''4'') (Some (streamOf [ReadChunk [1, 2, 3, 4, 5, 6, 7, 8], ReadDone])))
       idle ''f'' =
     Some [AddDownloading ''f'', SetProgress ''f'' 0, SignUrl ''f'' 3600,
           Fetch ''https://sos.example/f'', Read (ReadChunk [1, 2, 3, 4, 5, 6, 7, 8]),
           SetProgress ''f'' 200, Read ReadDone, SaveAs ''f'' [1, 2, 3, 4, 5, 6, 7, 8],
           RemoveDownloading ''f'', RemoveProgress ''f''] \<and>
   last (progressValues ''f''
          [AddDownloading ''f'', SetProgress ''f'' 0, SignUrl ''f'' 3600,
           Fetch ''https://sos.example/f'', Read (ReadChunk [1, 2, 3, 4, 5, 6, 7, 8]),
           SetProgress ''f'' 200, Read ReadDone, SaveAs ''f'' [1, 2, 3, 4, 5, 6, 7, 8],
           RemoveDownloading ''f'', RemoveProgress ''f'']) \<noteq> 100"
proof -
  have "handleDownload
       (exampleEnv (Some ''4'') (Some (streamOf [ReadChunk [1, 2, 3, 4, 5, 6, 7, 8], ReadDone])))
       idle ''f'' =
     Some [AddDownloading ''f'', SetProgress ''f'' 0, SignUrl ''f'' 3600,
           Fetch ''https://sos.example/f'', Read (ReadChunk [1, 2, 3, 4, 5, 6, 7, 8]),
           SetProgress ''f'' 200, Read ReadDone, SaveAs ''f'' [1, 2, 3, 4, 5, 6, 7, 8],
           RemoveDownloading ''f'', RemoveProgress ''f'']"
    by code_simp
  then show ?thesis by simp
qed


text \<open>
  Claim C8, as amended. At every point of every download that starts without an entry for
  its key, the value stored for the key is an integer that is not negative, and it is at most
  100 as long as the number of bytes read so far does not exceed the declared length.
\<close>

theorem progress_range:
  assumes "handleDownload env st k = Some evs" and "downloadProgress st k = None"
    and "downloadProgress (runEvents st (take n evs)) k = Some v"
  shows "0 \<le> v \<and>
         ((\<forall>r tot. responseOf env k = Some r \<and> totalOf (contentLength r) = Some tot
              \<longrightarrow> int (bytesRead (take n evs)) \<le> tot)
          \<longrightarrow> v \<le> 100)"
proof -
  from stored_progress[OF assms(3)] assms(2) have "v \<in> set (progressValues k (take n evs))"
    by simp
  from handleDownload_progress_take[OF assms(1) this] show ?thesis
  proof
    assume "v = 0" then show ?thesis by simp
  next
    assume "\<exists>r tot b. responseOf env k = Some r \<and> totalOf (contentLength r) = Some tot \<and>
           0 < tot \<and> b \<le> bytesRead (take n evs) \<and> v = progressOf b tot"
    then obtain r tot b where
      h: "responseOf env k = Some r" "totalOf (contentLength r) = Some tot" "0 < tot"
         "b \<le> bytesRead (take n evs)" "v = progressOf b tot"
      by blast
    have 1: "0 \<le> v" using h(3,5) by (simp add: progressOf_nonneg)
    have 2: "v \<le> 100" if "\<forall>r tot. responseOf env k = Some r \<and> totalOf (contentLength r) = Some tot
              \<longrightarrow> int (bytesRead (take n evs)) \<le> tot"
    proof -
      from that h(1,2) have "int (bytesRead (take n evs)) \<le> tot" by blast
      with h(4) have "int b \<le> tot" by linarith
      with h(3,5) show ?thesis by (simp add: progressOf_le_100)
    qed
    from 1 2 show ?thesis by blast
  qed
qed

theorem progress_range_witness:
  "handleDownload (exampleEnv (Some ''3'') (Some (streamOf [ReadChunk [1, 2], ReadChunk [3], ReadDone])))
       idle ''f'' =
     Some [AddDownloading ''f'', SetProgress ''f'' 0, SignUrl ''f'' 3600,
           Fetch ''https://sos.example/f'', Read (ReadChunk [1, 2]), SetProgress ''f'' 67,
           Read (ReadChunk [3]), SetProgress ''f'' 100, Read ReadDone, SaveAs ''f'' [1, 2, 3],
           RemoveDownloading ''f'', RemoveProgress ''f''] \<and>
   downloadProgress idle ''f'' = None \<and>
   downloadProgress (runEvents idle (take 6
          [AddDownloading ''f'', SetProgress ''f'' 0, SignUrl ''f'' 3600,
           Fetch ''https://sos.example/f'', Read (ReadChunk [1, 2]), SetProgress ''f'' 67,
           Read (ReadChunk [3]), SetProgress ''f'' 100, Read ReadDone, SaveAs ''f'' [1, 2, 3],
           RemoveDownloading ''f'', RemoveProgress ''f''])) ''f'' = Some 67 \<and>
   int (bytesRead (take 6
          [AddDownloading ''f'', SetProgress ''f'' 0, SignUrl ''f'' 3600,
           Fetch ''https://sos.example/f'', Read (ReadChunk [1, 2]), SetProgress ''f'' 67,
           Read (ReadChunk [3]), SetProgress ''f'' 100, Read ReadDone, SaveAs ''f'' [1, 2, 3],
           RemoveDownloading ''f'', RemoveProgress ''f''])) \<le> 3 \<and>
   (0::int) \<le> 67 \<and> (67::int) \<le> 100"
proof -
  have i: "downloadProgress idle ''f'' = None" by (simp add: idle_def)
  have s: "downloadProgress (runEvents idle (take 6
          [AddDownloading ''f'', SetProgress ''f'' 0, SignUrl ''f'' 3600,
           Fetch ''https://sos.example/f'', Read (ReadChunk [1, 2]), SetProgress ''f'' 67,
           Read (ReadChunk [3]), SetProgress ''f'' 100, Read ReadDone, SaveAs ''f'' [1, 2, 3],
           RemoveDownloading ''f'', RemoveProgress ''f''])) ''f'' = Some 67"
    by (simp add: idle_def runEvents_def)
  have b: "int (bytesRead (take 6
          [AddDownloading ''f'', SetProgress ''f'' 0, SignUrl ''f'' 3600,
           Fetch ''https://sos.example/f'', Read (ReadChunk [1, 2]), SetProgress ''f'' 67,
           Read (ReadChunk [3]), SetProgress ''f'' 100, Read ReadDone, SaveAs ''f'' [1, 2, 3],
           RemoveDownloading ''f'', RemoveProgress ''f''])) \<le> 3"
    by (simp add: bytesRead_def)
  from progress_range[OF example_complete i s] example_complete i s b
  show ?thesis by (simp add: example_response totalOf_3)
qed


text \<open>
  Claim C8 as it is stated bounds the value by 100 also when the stream delivers more bytes
  than declared. There is no clamp: with 3 bytes declared and 4 delivered the stored value is
  133.
\<close>

theorem progress_range_counterexample:
  "handleDownload (exampleEnv (Some ''3'') (Some (streamOf [ReadChunk [1, 2, 3, 4], ReadDone])))
       idle ''f'' =
     Some [AddDownloading ''f'', SetProgress ''f'' 0, SignUrl ''f'' 3600,
           Fetch ''https://sos.example/f'', Read (ReadChunk [1, 2, 3, 4]), SetProgress ''f'' 133,
           Read ReadDone, SaveAs ''f'' [1, 2, 3, 4], RemoveDownloading ''f'', RemoveProgress ''f''] \<and>
   downloadProgress (runEvents idle (take 6
          [AddDownloading ''f'', SetProgress ''f'' 0, SignUrl ''f'' 3600,
           Fetch ''https://sos.example/f'', Read (ReadChunk [1, 2, 3, 4]), SetProgress ''f'' 133,
           Read ReadDone, SaveAs ''f'' [1, 2, 3, 4], RemoveDownloading ''f'', RemoveProgress ''f'']))
     ''f'' = Some 133 \<and>
   \<not> (133::int) \<le> 100"
proof -
  have "handleDownload (exampleEnv (Some ''3'') (Some (streamOf [ReadChunk [1, 2, 3, 4], ReadDone])))
       idle ''f'' =
     Some [AddDownloading ''f'', SetProgress ''f'' 0, SignUrl ''f'' 3600,
           Fetch ''https://sos.example/f'', Read (ReadChunk [1, 2, 3, 4]), SetProgress ''f'' 133,
           Read ReadDone, SaveAs ''f'' [1, 2, 3, 4], RemoveDownloading ''f'', RemoveProgress ''f'']"
    by code_simp
  then show ?thesis by (simp add: idle_def runEvents_def)
qed


end
